theory Spec2Isabelle
  imports Complex_Main
begin

section \<open>Exponential-series solver (qutip/essolve.py)\<close>

text \<open>
  The module has two functions, \<open>ode2es\<close> and \<open>essolve\<close>.  Both are embedded below,
  statement by statement.  Array entries are IEEE doubles in the program; here they are
  exact complex numbers, so every statement below is about the algorithm in exact
  arithmetic and says nothing about rounding.
\<close>

subsection \<open>Data\<close>

text \<open>A dense two-dimensional array (what \<open>Qobj.full()\<close> returns), as its list of rows.\<close>

type_synonym cmat = "complex list list"

text \<open>The nested integer lists of \<open>Qobj.dims\<close>.\<close>

datatype dimtree = Dim nat | Dims "dimtree list"

text \<open>
  A \<open>Qobj\<close>: the matrix, \<open>dims\<close> and \<open>shape\<close> (two-element Python lists, here pairs)
  and the Hermiticity flag \<open>isherm\<close>.
\<close>

record qobj =
  data :: cmat
  dims :: "dimtree \<times> dimtree"
  shape :: "nat \<times> nat"
  isherm :: bool

text \<open>
  Exceptions.  \<open>TypeError\<close> carries the message of the two \<open>raise\<close> statements of
  \<open>ode2es\<close>; the others are raised inside numpy, scipy or the collaborating modules.
\<close>

datatype error =
  TypeError string
  | ValueError
  | IndexError
  | AttributeError
  | LinearAlgebraFailure

text \<open>
  Modelled from the spec: the exponential-series container \<open>eseries\<close> of qutip.eseries
  is not part of the sources.  The spec describes it as an ordered collection of terms
  \<open>(coefficient_matrix, rate)\<close> with term construction and additive combination.
\<close>

type_synonym eseries = "(qobj \<times> complex) list"

text \<open>
  The collaborators whose code is not part of the sources and that the spec leaves
  open are parameters: the three classification predicates, the eigensolver
  \<open>L.eigenstates()\<close>, scipy's \<open>la.solve\<close> and the Liouvillian construction.
\<close>

record collaborators =
  isket :: "qobj \<Rightarrow> bool"
  isoper :: "qobj \<Rightarrow> bool"
  issuper :: "qobj \<Rightarrow> bool"
  eigenstates :: "qobj \<Rightarrow> error + (complex list \<times> qobj list)"
  la_solve :: "cmat \<Rightarrow> cmat \<Rightarrow> error + cmat"
  liouvillian :: "qobj \<Rightarrow> qobj list option \<Rightarrow> error + qobj"

text \<open>The result container \<open>Odedata\<close>: the three attributes \<open>essolve\<close> assigns.\<close>

datatype expect_seq = RealSeq "real list" | ComplexSeq "complex list"

record odedata =
  solver :: string
  times_od :: "real list"
  expect_od :: "expect_seq list"

subsection \<open>numpy and scipy operations\<close>

definition nrows :: "cmat \<Rightarrow> nat" where
  "nrows m = length m"

definition ncols :: "cmat \<Rightarrow> nat" where
  "ncols m = (case m of [] \<Rightarrow> 0 | r # _ \<Rightarrow> length r)"

text \<open>\<open>m.T\<close>\<close>

definition mT :: "cmat \<Rightarrow> cmat" where
  "mT m = map (\<lambda>j. map (\<lambda>r. r ! j) m) [0..<ncols m]"

text \<open>\<open>a.reshape((r, c))\<close> of the row-major flattening \<open>xs\<close> of \<open>a\<close>.\<close>

definition reshape :: "nat \<Rightarrow> nat \<Rightarrow> complex list \<Rightarrow> error + cmat" where
  "reshape r c xs =
     (if r * c = length xs
      then Inr (map (\<lambda>i. map (\<lambda>j. xs ! (i * c + j)) [0..<c]) [0..<r])
      else Inl ValueError)"

text \<open>
  The matrix product of two arrays.  It raises when the rows of the first, which all
  have one length in an array, are not as long as the second has rows.
\<close>

definition mat_mul :: "cmat \<Rightarrow> cmat \<Rightarrow> cmat" where
  "mat_mul a b =
     map (\<lambda>r. map (\<lambda>j. \<Sum>k\<leftarrow>[0..<length r]. r ! k * b ! k ! j) [0..<ncols b]) a"

definition matmul :: "cmat \<Rightarrow> cmat \<Rightarrow> error + cmat" where
  "matmul a b =
     (if list_all (\<lambda>r. length r = nrows b) a then Inr (mat_mul a b) else Inl ValueError)"

text \<open>\<open>np.hstack\<close> of a list of two-dimensional arrays.\<close>

definition hstack :: "cmat list \<Rightarrow> error + cmat" where
  "hstack ms =
     (case ms of
        [] \<Rightarrow> Inl ValueError
      | m # _ \<Rightarrow>
          if list_all (\<lambda>x. nrows x = nrows m) ms
          then Inr (map (\<lambda>i. concat (map (\<lambda>x. x ! i) ms)) [0..<nrows m])
          else Inl ValueError)"

text \<open>
  \<open>sp.spdiags(d, 0, m, n)\<close>: the \<open>m\<close> by \<open>n\<close> matrix with the only row of \<open>d\<close> on
  its main diagonal.
\<close>

definition spdiags :: "cmat \<Rightarrow> nat \<Rightarrow> nat \<Rightarrow> error + cmat" where
  "spdiags d m n =
     (case d of
        [row] \<Rightarrow>
          Inr (map (\<lambda>i. map (\<lambda>j. if i = j \<and> j < length row then row ! j else 0) [0..<n])
                 [0..<m])
      | _ \<Rightarrow> Inl ValueError)"

text \<open>\<open>vv[:, i]\<close>\<close>

definition column :: "cmat \<Rightarrow> nat \<Rightarrow> error + complex list" where
  "column m i = (if i < ncols m then Inr (map (\<lambda>r. r ! i) m) else Inl IndexError)"

text \<open>\<open>np.matrix(c).T\<close> for a one-dimensional \<open>c\<close>: the column matrix.\<close>

definition col_matrix :: "complex list \<Rightarrow> cmat" where
  "col_matrix c = map (\<lambda>x. [x]) c"

text \<open>\<open>int(sqrt(n))\<close>\<close>

definition isqrt :: "nat \<Rightarrow> nat" where
  "isqrt n = length (filter (\<lambda>k. k * k \<le> n) [1..<Suc n])"

text \<open>\<open>prod(rho0.shape)\<close>\<close>

definition prod_shape :: "nat \<times> nat \<Rightarrow> nat" where
  "prod_shape s = fst s * snd s"

subsection \<open>Operations of the collaborating qutip modules\<close>

text \<open>
  Modelled from the spec: the operator/state algebra (qutip.qobj) and the vectorisation
  helpers (qutip.superoperator) are not part of the sources.  The spec names matrix
  storage, shape and dimension metadata, a Hermiticity flag, the outer product of a ket
  with its conjugate transpose, and the vectorisation of a density matrix with its
  inverse reshaping; \<open>mat2vec\<close> stacks columns.
\<close>

definition full :: "qobj \<Rightarrow> cmat" where
  "full q = data q"

definition dagger :: "cmat \<Rightarrow> cmat" where
  "dagger m = map (map cnj) (mT m)"

definition Qobj :: "cmat \<Rightarrow> dimtree \<times> dimtree \<Rightarrow> nat \<times> nat \<Rightarrow> qobj" where
  "Qobj m d s = \<lparr>data = m, dims = d, shape = s, isherm = (dagger m = m)\<rparr>"

definition Qobj0 :: qobj where
  "Qobj0 = Qobj [[0]] (Dims [Dim 1], Dims [Dim 1]) (1, 1)"

definition dag :: "qobj \<Rightarrow> qobj" where
  "dag q = Qobj (dagger (data q)) (snd (dims q), fst (dims q)) (snd (shape q), fst (shape q))"

definition qmul :: "qobj \<Rightarrow> qobj \<Rightarrow> qobj" where
  "qmul a b =
     Qobj (mat_mul (data a) (data b)) (fst (dims a), snd (dims b)) (fst (shape a), snd (shape b))"

definition madd :: "cmat \<Rightarrow> cmat \<Rightarrow> cmat" where
  "madd a b = map2 (map2 (+)) a b"

definition qadd :: "qobj \<Rightarrow> qobj \<Rightarrow> qobj" where
  "qadd a b = Qobj (madd (data a) (data b)) (dims a) (shape a)"

definition qscale :: "complex \<Rightarrow> qobj \<Rightarrow> qobj" where
  "qscale c q = Qobj (map (map (\<lambda>x. c * x)) (data q)) (dims q) (shape q)"

definition mat2vec :: "cmat \<Rightarrow> error + cmat" where
  "mat2vec m = reshape (nrows m * ncols m) 1 (concat (mT m))"

definition vec2mat :: "complex list \<Rightarrow> error + cmat" where
  "vec2mat vec =
     (let n = isqrt (length vec)
      in case reshape n n vec of Inl e \<Rightarrow> Inl e | Inr m \<Rightarrow> Inr (mT m))"

text \<open>
  Modelled from the spec: term construction \<open>eseries(q, s)\<close>, additive combination
  \<open>+=\<close>, and the tidy step \<open>estidy\<close> of qutip.eseries.  The spec has \<open>estidy\<close> merge
  the terms with equal rates by summing their coefficient matrices, without changing
  the function the series represents.
\<close>

definition eseries :: "qobj \<Rightarrow> complex \<Rightarrow> eseries" where
  "eseries q s = [(q, s)]"

definition es_add :: "eseries \<Rightarrow> eseries \<Rightarrow> eseries" where
  "es_add a b = a @ b"

fun es_merge :: "qobj \<times> complex \<Rightarrow> eseries \<Rightarrow> eseries" where
  "es_merge (q, s) [] = [(q, s)]"
| "es_merge (q, s) ((q', s') # ts) =
     (if s' = s then (qadd q' q, s') # ts else (q', s') # es_merge (q, s) ts)"

definition estidy :: "eseries \<Rightarrow> eseries" where
  "estidy es = foldl (\<lambda>acc t. es_merge t acc) [] es"

text \<open>
  Modelled from the spec: \<open>esval\<close> (qutip.eseries) evaluates the series at each
  requested time as the sum of \<open>coefficient * exp(rate * t)\<close>; \<open>expect\<close> (qutip.expect)
  gives \<open>Tr(observable * state)\<close> for a density matrix and
  \<open><state| observable |state>\<close> for a ket, one value per state.
\<close>

fun qsum :: "qobj list \<Rightarrow> qobj" where
  "qsum [] = Qobj0"
| "qsum (q # qs) = foldl qadd q qs"

definition es_value :: "eseries \<Rightarrow> real \<Rightarrow> qobj" where
  "es_value es t = qsum (map (\<lambda>(q, s). qscale (exp (s * complex_of_real t)) q) es)"

definition esval :: "eseries \<Rightarrow> real list \<Rightarrow> qobj list" where
  "esval es tlist = map (es_value es) tlist"

definition trace :: "cmat \<Rightarrow> complex" where
  "trace m = (\<Sum>i\<leftarrow>[0..<nrows m]. m ! i ! i)"

definition expect1 :: "'a collaborators_scheme \<Rightarrow> qobj \<Rightarrow> qobj \<Rightarrow> complex" where
  "expect1 E oper state =
     (if isket E state
      then mat_mul (dagger (data state)) (mat_mul (data oper) (data state)) ! 0 ! 0
      else trace (mat_mul (data oper) (data state)))"

definition expect :: "'a collaborators_scheme \<Rightarrow> qobj \<Rightarrow> qobj list \<Rightarrow> complex list" where
  "expect E oper states = map (expect1 E oper) states"

subsection \<open>ode2es\<close>

text \<open>
  The body of the two \<open>for i in range(rlen)\<close> loops up to the construction of the
  term \<open>eseries(qo, rate)\<close>: lines 140 and 142/144 in the superoperator branch,
  lines 164 and 166/168 in the operator branch.
\<close>

definition term_super :: "cmat \<Rightarrow> complex list \<Rightarrow> qobj \<Rightarrow> nat \<Rightarrow> error + eseries" where
  "term_super vv w rho0 i =
     (case column vv i of
        Inl e \<Rightarrow> Inl e
      | Inr c \<Rightarrow>
          (case vec2mat c of
             Inl e \<Rightarrow> Inl e
           | Inr m \<Rightarrow>
               (let qo = Qobj m (dims rho0) (shape rho0)
                in if i < length w then Inr (eseries qo (w ! i)) else Inl IndexError)))"

definition term_oper :: "cmat \<Rightarrow> complex list \<Rightarrow> qobj \<Rightarrow> nat \<Rightarrow> error + eseries" where
  "term_oper vv w rho0 i =
     (case column vv i of
        Inl e \<Rightarrow> Inl e
      | Inr c \<Rightarrow>
          (let qo = Qobj (col_matrix c) (dims rho0) (shape rho0)
           in if i < length w then Inr (eseries qo (- \<i> * w ! i)) else Inl IndexError))"

text \<open>
  The accumulation \<open>out = None; for i in range(rlen): if out: out += t else: out = t\<close>.
  An \<open>eseries\<close> object is true in a condition; only \<open>None\<close> is false.
\<close>

fun es_loop ::
  "(nat \<Rightarrow> error + eseries) \<Rightarrow> nat list \<Rightarrow> eseries option \<Rightarrow> error + eseries option" where
  "es_loop body [] out = Inr out"
| "es_loop body (i # is) out =
     (case body i of
        Inl e \<Rightarrow> Inl e
      | Inr t \<Rightarrow>
          es_loop body is (case out of None \<Rightarrow> Some t | Some s \<Rightarrow> Some (es_add s t)))"

text \<open>
  Lines 135 to 144 and 159 to 168, the same statements in both branches:
  \<open>v0 = la.solve(v, r0)\<close>, \<open>vv = v * sp.spdiags(v0.T, 0, rlen, rlen)\<close> and the loop,
  whose body is \<open>term_super\<close> or \<open>term_oper\<close>.
\<close>

definition solve_and_build ::
  "'a collaborators_scheme \<Rightarrow> (cmat \<Rightarrow> nat \<Rightarrow> error + eseries) \<Rightarrow> cmat \<Rightarrow> cmat \<Rightarrow> nat
     \<Rightarrow> error + eseries option" where
  "solve_and_build E body v r0 rlen =
     (case la_solve E v r0 of
        Inl e \<Rightarrow> Inl e
      | Inr v0 \<Rightarrow>
          (case spdiags (mT v0) rlen rlen of
             Inl e \<Rightarrow> Inl e
           | Inr d \<Rightarrow>
               (case matmul v d of
                  Inl e \<Rightarrow> Inl e
                | Inr vv \<Rightarrow> es_loop (body vv) [0..<rlen] None)))"

text \<open>Lines 128 to 144: the superoperator branch after the promotion of the state.\<close>

definition ode2es_super ::
  "'a collaborators_scheme \<Rightarrow> qobj \<Rightarrow> qobj \<Rightarrow> error + eseries option" where
  "ode2es_super E L rho0 =
     (case eigenstates E L of
        Inl e \<Rightarrow> Inl e
      | Inr (w, kets) \<Rightarrow>
          (case hstack (map full kets) of
             Inl e \<Rightarrow> Inl e
           | Inr v \<Rightarrow>
               (let rlen = prod_shape (shape rho0)
                in case mat2vec (full rho0) of
                     Inl e \<Rightarrow> Inl e
                   | Inr r0 \<Rightarrow>
                       solve_and_build E (\<lambda>vv. term_super vv w rho0) v r0 rlen)))"

text \<open>Lines 152 to 168: the operator branch after the check of the state.\<close>

definition ode2es_oper ::
  "'a collaborators_scheme \<Rightarrow> qobj \<Rightarrow> qobj \<Rightarrow> error + eseries option" where
  "ode2es_oper E L rho0 =
     (case eigenstates E L of
        Inl e \<Rightarrow> Inl e
      | Inr (w, kets) \<Rightarrow>
          (case hstack (map full kets) of
             Inl e \<Rightarrow> Inl e
           | Inr v \<Rightarrow>
               (let rlen = prod_shape (shape rho0);
                    r0 = full rho0
                in solve_and_build E (\<lambda>vv. term_oper vv w rho0) v r0 rlen)))"

text \<open>The state the superoperator branch works on (lines 124 to 126).\<close>

definition promote :: "'a collaborators_scheme \<Rightarrow> qobj \<Rightarrow> qobj" where
  "promote E rho0 = (if isket E rho0 then qmul rho0 (dag rho0) else rho0)"

text \<open>Lines 121 to 171: the value of \<open>out\<close> when line 173 is reached.\<close>

definition ode2es_out ::
  "'a collaborators_scheme \<Rightarrow> qobj \<Rightarrow> qobj \<Rightarrow> error + eseries option" where
  "ode2es_out E L rho0 =
     (if issuper E L then ode2es_super E L (promote E rho0)
      else if isoper E L then
        (if \<not> isket E rho0
         then Inl (TypeError ''Second argument must be a ket if firstis a Hamiltonian.'')
         else ode2es_oper E L rho0)
      else Inl (TypeError ''First argument must be a Hamiltonian or Liouvillian.''))"

text \<open>Line 173: \<open>return estidy(out)\<close>; \<open>estidy(None)\<close> has no series to read.\<close>

definition ode2es :: "'a collaborators_scheme \<Rightarrow> qobj \<Rightarrow> qobj \<Rightarrow> error + eseries" where
  "ode2es E L rho0 =
     (case ode2es_out E L rho0 of
        Inl e \<Rightarrow> Inl e
      | Inr None \<Rightarrow> Inl AttributeError
      | Inr (Some out) \<Rightarrow> Inr (estidy out))"

subsection \<open>essolve\<close>

text \<open>
  \<open>result_list\<close> is a Python list of placeholder objects when there is no observable
  (line 82) and a complex array otherwise (line 84).
\<close>

datatype result_list = QobjList "qobj list" | Array cmat

text \<open>Lines 73 to 76: the generator \<open>L\<close>; \<open>c_op_list\<close> may be \<open>None\<close>.\<close>

definition essolve_L ::
  "'a collaborators_scheme \<Rightarrow> qobj \<Rightarrow> qobj \<Rightarrow> qobj list option \<Rightarrow> error + qobj" where
  "essolve_L E H rho0 c_op_list =
     (if (case c_op_list of None \<Rightarrow> True | Some cs \<Rightarrow> length cs = 0) \<and> isket E rho0
      then Inr H
      else liouvillian E H c_op_list)"

text \<open>
  \<open>result_list[n, :] = xs\<close>: numpy stores a sequence of the row's length, broadcasts a
  sequence of length one and refuses any other; a Python list refuses the index.
\<close>

definition set_row :: "result_list \<Rightarrow> nat \<Rightarrow> complex list \<Rightarrow> error + result_list" where
  "set_row rl n xs =
     (case rl of
        QobjList _ \<Rightarrow> Inl (TypeError ''list indices must be integers or slices, not tuple'')
      | Array a \<Rightarrow>
          if n < length a then
            (if length xs = length (a ! n) then Inr (Array (a[n := xs]))
             else if length xs = 1
               then Inr (Array (a[n := replicate (length (a ! n)) (hd xs)]))
             else Inl ValueError)
          else Inl IndexError)"

text \<open>\<open>result_list[n, :]\<close>\<close>

definition get_row :: "result_list \<Rightarrow> nat \<Rightarrow> error + complex list" where
  "get_row rl n =
     (case rl of
        QobjList _ \<Rightarrow> Inl (TypeError ''list indices must be integers or slices, not tuple'')
      | Array a \<Rightarrow> if n < length a then Inr (a ! n) else Inl IndexError)"

text \<open>Lines 86 and 87: \<open>for n, e in enumerate(e_ops)\<close>.\<close>

fun fill_rows ::
  "'a collaborators_scheme \<Rightarrow> eseries \<Rightarrow> real list \<Rightarrow> (nat \<times> qobj) list \<Rightarrow> result_list
     \<Rightarrow> error + result_list" where
  "fill_rows E es tlist [] rl = Inr rl"
| "fill_rows E es tlist ((n, e) # rest) rl =
     (case set_row rl n (expect E e (esval es tlist)) of
        Inl err \<Rightarrow> Inl err
      | Inr rl' \<Rightarrow> fill_rows E es tlist rest rl')"

text \<open>Lines 92 and 93: the list comprehension stored in \<open>data.expect\<close>.\<close>

fun expect_entries :: "(nat \<times> qobj) list \<Rightarrow> result_list \<Rightarrow> error + expect_seq list" where
  "expect_entries [] rl = Inr []"
| "expect_entries ((n, e) # rest) rl =
     (case get_row rl n of
        Inl err \<Rightarrow> Inl err
      | Inr row \<Rightarrow>
          (case expect_entries rest rl of
             Inl err \<Rightarrow> Inl err
           | Inr ss \<Rightarrow> Inr ((if isherm e then RealSeq (map Re row) else ComplexSeq row) # ss)))"

text \<open>Lines 80 to 95: what \<open>essolve\<close> does with the series \<open>es\<close>.\<close>

definition essolve_result ::
  "'a collaborators_scheme \<Rightarrow> eseries \<Rightarrow> real list \<Rightarrow> qobj list \<Rightarrow> error + odedata" where
  "essolve_result E es tlist e_ops =
     (let n_expt_op = length e_ops;
          n_tsteps = length tlist;
          result_list =
            (if n_expt_op = 0 then QobjList (replicate n_tsteps Qobj0)
             else Array (replicate n_expt_op (replicate n_tsteps 0)))
      in case fill_rows E es tlist (enumerate 0 e_ops) result_list of
           Inl err \<Rightarrow> Inl err
         | Inr rl \<Rightarrow>
             (case expect_entries (enumerate 0 e_ops) rl of
                Inl err \<Rightarrow> Inl err
              | Inr ex \<Rightarrow> Inr \<lparr>solver = ''essolve'', times_od = tlist, expect_od = ex\<rparr>))"

definition essolve ::
  "'a collaborators_scheme \<Rightarrow> qobj \<Rightarrow> qobj \<Rightarrow> real list \<Rightarrow> qobj list option \<Rightarrow> qobj list
     \<Rightarrow> error + odedata" where
  "essolve E H rho0 tlist c_op_list e_ops =
     (case essolve_L E H rho0 c_op_list of
        Inl err \<Rightarrow> Inl err
      | Inr L \<Rightarrow>
          (case ode2es E L rho0 of
             Inl err \<Rightarrow> Inl err
           | Inr es \<Rightarrow> essolve_result E es tlist e_ops))"

text \<open>The imaginary parts of a stored sequence (\<open>np.imag\<close>).\<close>

fun seq_imag :: "expect_seq \<Rightarrow> real list" where
  "seq_imag (RealSeq xs) = map (\<lambda>_. 0) xs"
| "seq_imag (ComplexSeq zs) = map Im zs"

subsection \<open>Notions used by the statements\<close>

text \<open>
  The two failures the spec names; in the code both are \<open>TypeError\<close>s, told apart by
  their message.
\<close>

definition StateTypeMismatchError :: error where
  "StateTypeMismatchError = TypeError ''Second argument must be a ket if firstis a Hamiltonian.''"

definition InvalidGeneratorError :: error where
  "InvalidGeneratorError = TypeError ''First argument must be a Hamiltonian or Liouvillian.''"

text \<open>The terms accumulated so far in \<open>out\<close>.\<close>

definition es_terms :: "eseries option \<Rightarrow> eseries" where
  "es_terms out = (case out of None \<Rightarrow> [] | Some s \<Rightarrow> s)"

text \<open>The coefficient \<open>qo\<close> of term \<open>i\<close> in each branch, as a function of \<open>vv\<close>.\<close>

definition coeff_super :: "cmat \<Rightarrow> qobj \<Rightarrow> nat \<Rightarrow> qobj" where
  "coeff_super vv rho0 i =
     Qobj (case vec2mat (map (\<lambda>r. r ! i) vv) of Inl e \<Rightarrow> [] | Inr m \<Rightarrow> m)
       (dims rho0) (shape rho0)"

definition coeff_oper :: "cmat \<Rightarrow> qobj \<Rightarrow> nat \<Rightarrow> qobj" where
  "coeff_oper vv rho0 i = Qobj (col_matrix (map (\<lambda>r. r ! i) vv)) (dims rho0) (shape rho0)"

text \<open>The state whose shape, dims and entries the branch taken works with.\<close>

definition initial_state :: "'a collaborators_scheme \<Rightarrow> qobj \<Rightarrow> qobj \<Rightarrow> qobj" where
  "initial_state E L rho0 = (if issuper E L then promote E rho0 else rho0)"

text \<open>What lines 92 and 93 store for the observable \<open>e\<close>.\<close>

definition stored_seq ::
  "'a collaborators_scheme \<Rightarrow> eseries \<Rightarrow> real list \<Rightarrow> qobj \<Rightarrow> expect_seq" where
  "stored_seq E es tlist e =
     (if isherm e then RealSeq (map Re (expect E e (esval es tlist)))
      else ComplexSeq (expect E e (esval es tlist)))"

text \<open>\<open>c_op_list is None or len(c_op_list) == 0\<close>\<close>

definition no_collapse :: "qobj list option \<Rightarrow> bool" where
  "no_collapse c_op_list = (case c_op_list of None \<Rightarrow> True | Some cs \<Rightarrow> length cs = 0)"

text \<open>
  The sum of a list of matrices as \<open>esval\<close> forms it: the first plus the others in
  turn.
\<close>

fun msum :: "cmat list \<Rightarrow> cmat" where
  "msum [] = [[0]]"
| "msum (m # ms) = foldl madd m ms"

text \<open>A list of \<open>r\<close> rows of length \<open>c\<close>.\<close>

definition is_matrix :: "nat \<Rightarrow> nat \<Rightarrow> cmat \<Rightarrow> bool" where
  "is_matrix r c m = (length m = r \<and> list_all (\<lambda>row. length row = c) m)"

text \<open>
  The contract of \<open>la.solve\<close> in exact arithmetic: whatever it returns for \<open>v\<close> and
  \<open>r\<close> solves \<open>v * x = r\<close>.
\<close>

definition exact_solver :: "'a collaborators_scheme \<Rightarrow> bool" where
  "exact_solver E = (\<forall>v r x. la_solve E v r = Inr x \<longrightarrow> matmul v x = Inr r)"

text \<open>
  The matrix of the initial state has the rows and columns its \<open>shape\<close> says, and the
  state is square in the superoperator branch and a column in the operator branch.
\<close>

definition state_wellformed :: "'a collaborators_scheme \<Rightarrow> qobj \<Rightarrow> qobj \<Rightarrow> bool" where
  "state_wellformed E L rho0 =
     (let \<rho> = initial_state E L rho0
      in is_matrix (fst (shape \<rho>)) (snd (shape \<rho>)) (data \<rho>) \<and>
         (if issuper E L then fst (shape \<rho>) = snd (shape \<rho>) else snd (shape \<rho>) = 1))"

text \<open>\<open>q\<close> has the dims and the shape of \<open>\<rho>\<close>.\<close>

definition same_frame :: "qobj \<Rightarrow> qobj \<Rightarrow> bool" where
  "same_frame \<rho> q = (dims q = dims \<rho> \<and> shape q = shape \<rho>)"

subsection \<open>A concrete two-level system\<close>

text \<open>
  Collaborators for a concrete run: classification by \<open>dims\<close> and \<open>shape\<close>, the
  eigensolver on diagonal matrices (eigenvalues on the diagonal, eigenvectors the
  standard basis), a linear solver that answers when the right-hand side solves the
  system itself, and the Liouvillian \<open>-i (I \<otimes> H - H\<^sup>T \<otimes> I)\<close> of a closed system.
\<close>

definition isket0 :: "qobj \<Rightarrow> bool" where
  "isket0 q = (snd (shape q) = 1)"

definition issuper0 :: "qobj \<Rightarrow> bool" where
  "issuper0 q = (case fst (dims q) of Dims (Dims _ # _) \<Rightarrow> True | _ \<Rightarrow> False)"

definition isoper0 :: "qobj \<Rightarrow> bool" where
  "isoper0 q = (fst (dims q) = snd (dims q) \<and> \<not> issuper0 q)"

definition unit_ket :: "nat \<Rightarrow> nat \<Rightarrow> qobj" where
  "unit_ket n i =
     Qobj (map (\<lambda>k. [if k = i then 1 else 0]) [0..<n]) (Dims [Dim n], Dims [Dim 1]) (n, 1)"

definition is_diag :: "cmat \<Rightarrow> bool" where
  "is_diag m =
     list_all (\<lambda>i. length (m ! i) = length m \<and>
                   list_all (\<lambda>j. i = j \<or> m ! i ! j = 0) [0..<length m]) [0..<length m]"

definition eigenstates0 :: "qobj \<Rightarrow> error + (complex list \<times> qobj list)" where
  "eigenstates0 q =
     (let m = data q; n = length m
      in if is_diag m
         then Inr (map (\<lambda>i. m ! i ! i) [0..<n], map (unit_ket n) [0..<n])
         else Inl LinearAlgebraFailure)"

definition la_solve0 :: "cmat \<Rightarrow> cmat \<Rightarrow> error + cmat" where
  "la_solve0 v r = (if matmul v r = Inr r then Inr r else Inl LinearAlgebraFailure)"

definition kron :: "cmat \<Rightarrow> cmat \<Rightarrow> cmat" where
  "kron a b =
     concat (map (\<lambda>ra. map (\<lambda>rb. concat (map (\<lambda>x. map (\<lambda>y. x * y) rb) ra)) b) a)"

definition eye :: "nat \<Rightarrow> cmat" where
  "eye n = map (\<lambda>i. map (\<lambda>j. if i = j then 1 else 0) [0..<n]) [0..<n]"

definition liouvillian0 :: "qobj \<Rightarrow> qobj list option \<Rightarrow> error + qobj" where
  "liouvillian0 H c_op_list =
     (let n = nrows (data H);
          a = kron (eye n) (data H);
          b = kron (mT (data H)) (eye n);
          d = Dims [fst (dims H), snd (dims H)]
      in if (case c_op_list of None \<Rightarrow> True | Some cs \<Rightarrow> cs = [])
         then Inr (Qobj (map2 (map2 (\<lambda>x y. - \<i> * (x - y))) a b) (d, d) (n * n, n * n))
         else Inl LinearAlgebraFailure)"

definition E0 :: collaborators where
  "E0 = \<lparr>isket = isket0, isoper = isoper0, issuper = issuper0,
         eigenstates = eigenstates0, la_solve = la_solve0, liouvillian = liouvillian0\<rparr>"

definition sigmaz :: qobj where
  "sigmaz = Qobj [[1, 0], [0, - 1]] (Dims [Dim 2], Dims [Dim 2]) (2, 2)"

definition basis0 :: qobj where
  "basis0 = unit_ket 2 0"

definition zero_ket :: qobj where
  "zero_ket = Qobj [[0], [0]] (Dims [Dim 2], Dims [Dim 1]) (2, 1)"

text \<open>
  The Liouvillian of \<open>sigmaz\<close>, the density matrix of \<open>basis0\<close>, and the series the two
  branches of \<open>ode2es\<close> accumulate for them.
\<close>

definition super_dims :: "dimtree \<times> dimtree" where
  "super_dims = (Dims [Dims [Dim 2], Dims [Dim 2]], Dims [Dims [Dim 2], Dims [Dim 2]])"

definition liouv_sigmaz :: qobj where
  "liouv_sigmaz =
     Qobj [[0, 0, 0, 0], [0, 2 * \<i>, 0, 0], [0, 0, - (2 * \<i>), 0], [0, 0, 0, 0]] super_dims (4, 4)"

definition rho_basis0 :: qobj where
  "rho_basis0 = Qobj [[1, 0], [0, 0]] (Dims [Dim 2], Dims [Dim 2]) (2, 2)"

definition zero_oper :: qobj where
  "zero_oper = Qobj [[0, 0], [0, 0]] (Dims [Dim 2], Dims [Dim 2]) (2, 2)"

definition es_oper0 :: eseries where
  "es_oper0 = [(basis0, - \<i>), (zero_ket, \<i>)]"

definition es_super0 :: eseries where
  "es_super0 = [(rho_basis0, 0), (zero_oper, 2 * \<i>), (zero_oper, - (2 * \<i>)), (zero_oper, 0)]"


section \<open>Properties\<close>

subsection \<open>The accumulation loop\<close>

lemma es_loop_terms:
  assumes "es_loop body js out = Inr r"
    and "\<And>i t. i \<in> set js \<Longrightarrow> body i = Inr t \<Longrightarrow> t = [f i]"
  shows "r = (if js = [] then out else Some (es_terms out @ map f js))"
  using assms
proof (induction js arbitrary: out)
  case Nil
  then show ?case by simp
next
  case (Cons j js)
  from Cons.prems(1) obtain t where t: "body j = Inr t"
    by (cases "body j") auto
  with Cons.prems(2) have tf: "t = [f j]" by simp
  let ?out' = "case out of None \<Rightarrow> Some t | Some s \<Rightarrow> Some (es_add s t)"
  from Cons.prems(1) t have loop: "es_loop body js ?out' = Inr r" by simp
  have "r = (if js = [] then ?out' else Some (es_terms ?out' @ map f js))"
    by (rule Cons.IH [OF loop]) (simp add: Cons.prems(2))
  then show ?case
    by (cases out) (simp_all add: tf es_terms_def es_add_def)
qed

lemma es_loop_succeeds:
  assumes "es_loop body js out = Inr r" and "i \<in> set js"
  shows "\<exists>t. body i = Inr t"
  using assms
  by (induction js arbitrary: out) (auto split: sum.splits)

lemma es_loop_total:
  assumes "\<forall>i\<in>set js. \<exists>t. body i = Inr t"
  shows "\<exists>r. es_loop body js out = Inr r"
  using assms
proof (induction js arbitrary: out)
  case Nil
  then show ?case by simp
next
  case (Cons j js)
  then obtain t where "body j = Inr t" by auto
  with Cons show ?case by simp
qed

lemma es_loop_range:
  assumes "0 < n" and "\<forall>i<n. \<exists>q s. body i = Inr (eseries q s)"
  shows "\<exists>out. es_loop body [0..<n] None = Inr (Some out) \<and> length out = n \<and>
           (\<forall>i<n. body i = Inr (eseries (fst (out ! i)) (snd (out ! i))))"
proof -
  let ?f = "\<lambda>i. case body i of Inr t \<Rightarrow> hd t"
  from assms(2) have "\<forall>i\<in>set [0..<n]. \<exists>t. body i = Inr t"
    by auto
  then obtain r where r: "es_loop body [0..<n] None = Inr r"
    using es_loop_total by blast
  have "r = (if [0..<n] = [] then None else Some (es_terms None @ map ?f [0..<n]))"
  proof (rule es_loop_terms [OF r])
    fix i t assume i: "i \<in> set [0..<n]" and t: "body i = Inr t"
    from i have "i < n" by simp
    with assms(2) obtain q s where "body i = Inr (eseries q s)" by blast
    with t show "t = [?f i]" by (auto simp: eseries_def)
  qed
  with assms(1) have out: "r = Some (map ?f [0..<n])"
    by (simp add: es_terms_def)
  have "\<forall>i<n. body i = Inr (eseries (fst (map ?f [0..<n] ! i)) (snd (map ?f [0..<n] ! i)))"
  proof (intro allI impI)
    fix i assume i: "i < n"
    with assms(2) obtain q s where "body i = Inr (eseries q s)" by auto
    with i show "body i = Inr (eseries (fst (map ?f [0..<n] ! i)) (snd (map ?f [0..<n] ! i)))"
      by (simp add: eseries_def)
  qed
  with r out show ?thesis by simp
qed

lemma term_super_Inr:
  assumes "term_super vv w rho0 i = Inr t"
  shows "t = [(coeff_super vv rho0 i, w ! i)]"
  using assms
  by (auto simp: term_super_def coeff_super_def column_def eseries_def Let_def
      split: sum.splits if_splits)

lemma term_oper_Inr:
  assumes "term_oper vv w rho0 i = Inr t"
  shows "t = [(coeff_oper vv rho0 i, - \<i> * w ! i)]"
  using assms
  by (auto simp: term_oper_def coeff_oper_def column_def eseries_def Let_def
      split: sum.splits if_splits)

lemma term_super_ok:
  assumes "term_super vv w rho0 i = Inr t"
  shows "i < length w \<and> i < ncols vv \<and> (\<exists>m. vec2mat (map (\<lambda>r. r ! i) vv) = Inr m)"
  using assms
  by (auto simp: term_super_def column_def Let_def split: sum.splits if_splits)

lemma term_oper_ok:
  assumes "term_oper vv w rho0 i = Inr t"
  shows "i < length w \<and> i < ncols vv"
  using assms
  by (auto simp: term_oper_def column_def Let_def split: sum.splits if_splits)

lemma solve_and_build_steps:
  assumes "solve_and_build E body v r0 rlen = Inr r"
    and "\<And>vv i t. body vv i = Inr t \<Longrightarrow> t = [f vv i]"
  obtains v0 d vv where
    "la_solve E v r0 = Inr v0" "spdiags (mT v0) rlen rlen = Inr d" "matmul v d = Inr vv"
    "\<forall>i<rlen. \<exists>t. body vv i = Inr t"
    "r = (if rlen = 0 then None else Some (map (f vv) [0..<rlen]))"
proof -
  from assms(1) obtain v0 d vv where
    steps: "la_solve E v r0 = Inr v0" "spdiags (mT v0) rlen rlen = Inr d" "matmul v d = Inr vv"
    and loop: "es_loop (body vv) [0..<rlen] None = Inr r"
    by (auto simp: solve_and_build_def split: sum.splits)
  from loop have "r = (if [0..<rlen] = [] then None
      else Some (es_terms None @ map (f vv) [0..<rlen]))"
    by (rule es_loop_terms) (rule assms(2))
  then have r: "r = (if rlen = 0 then None else Some (map (f vv) [0..<rlen]))"
    by (auto simp: es_terms_def)
  have "\<forall>i<rlen. \<exists>t. body vv i = Inr t"
    using es_loop_succeeds [OF loop] by simp
  with steps r show ?thesis using that by blast
qed

lemma ode2es_super_steps:
  assumes "ode2es_super E L rho = Inr r"
  obtains w kets v r0 v0 d vv where
    "eigenstates E L = Inr (w, kets)" "hstack (map full kets) = Inr v"
    "mat2vec (full rho) = Inr r0" "la_solve E v r0 = Inr v0"
    "spdiags (mT v0) (prod_shape (shape rho)) (prod_shape (shape rho)) = Inr d"
    "matmul v d = Inr vv"
    "\<forall>i<prod_shape (shape rho). i < length w \<and> i < ncols vv \<and>
        (\<exists>m. vec2mat (map (\<lambda>r. r ! i) vv) = Inr m)"
    "r = (if prod_shape (shape rho) = 0 then None
          else Some (map (\<lambda>i. (coeff_super vv rho i, w ! i)) [0..<prod_shape (shape rho)]))"
proof -
  from assms obtain w kets v r0 where
    pre: "eigenstates E L = Inr (w, kets)" "hstack (map full kets) = Inr v"
      "mat2vec (full rho) = Inr r0"
    and sb: "solve_and_build E (\<lambda>vv. term_super vv w rho) v r0 (prod_shape (shape rho)) = Inr r"
    by (auto simp: ode2es_super_def Let_def split: sum.splits)
  from sb term_super_Inr obtain v0 d vv where
    steps: "la_solve E v r0 = Inr v0"
      "spdiags (mT v0) (prod_shape (shape rho)) (prod_shape (shape rho)) = Inr d"
      "matmul v d = Inr vv"
    and ok: "\<forall>i<prod_shape (shape rho). \<exists>t. term_super vv w rho i = Inr t"
    and r: "r = (if prod_shape (shape rho) = 0 then None
          else Some (map (\<lambda>i. (coeff_super vv rho i, w ! i)) [0..<prod_shape (shape rho)]))"
    by (rule solve_and_build_steps)
  from ok have "\<forall>i<prod_shape (shape rho). i < length w \<and> i < ncols vv \<and>
        (\<exists>m. vec2mat (map (\<lambda>r. r ! i) vv) = Inr m)"
    using term_super_ok by blast
  with pre steps r show ?thesis using that by blast
qed

lemma ode2es_oper_steps:
  assumes "ode2es_oper E L rho = Inr r"
  obtains w kets v v0 d vv where
    "eigenstates E L = Inr (w, kets)" "hstack (map full kets) = Inr v"
    "la_solve E v (full rho) = Inr v0"
    "spdiags (mT v0) (prod_shape (shape rho)) (prod_shape (shape rho)) = Inr d"
    "matmul v d = Inr vv"
    "\<forall>i<prod_shape (shape rho). i < length w \<and> i < ncols vv"
    "r = (if prod_shape (shape rho) = 0 then None
          else Some (map (\<lambda>i. (coeff_oper vv rho i, - \<i> * w ! i)) [0..<prod_shape (shape rho)]))"
proof -
  from assms obtain w kets v where
    pre: "eigenstates E L = Inr (w, kets)" "hstack (map full kets) = Inr v"
    and sb: "solve_and_build E (\<lambda>vv. term_oper vv w rho) v (full rho) (prod_shape (shape rho)) = Inr r"
    by (auto simp: ode2es_oper_def Let_def split: sum.splits)
  from sb term_oper_Inr obtain v0 d vv where
    steps: "la_solve E v (full rho) = Inr v0"
      "spdiags (mT v0) (prod_shape (shape rho)) (prod_shape (shape rho)) = Inr d"
      "matmul v d = Inr vv"
    and ok: "\<forall>i<prod_shape (shape rho). \<exists>t. term_oper vv w rho i = Inr t"
    and r: "r = (if prod_shape (shape rho) = 0 then None
          else Some (map (\<lambda>i. (coeff_oper vv rho i, - \<i> * w ! i)) [0..<prod_shape (shape rho)]))"
    by (rule solve_and_build_steps)
  from ok have "\<forall>i<prod_shape (shape rho). i < length w \<and> i < ncols vv"
    using term_oper_ok by blast
  with pre steps r show ?thesis using that by blast
qed

lemma ode2es_out_cases:
  assumes "ode2es_out E L rho0 = Inr r"
  shows "(issuper E L \<and> ode2es_super E L (promote E rho0) = Inr r) \<or>
         (\<not> issuper E L \<and> isoper E L \<and> isket E rho0 \<and> ode2es_oper E L rho0 = Inr r)"
  using assms by (auto simp: ode2es_out_def split: if_splits)

lemma E0_simps:
  "isket E0 = isket0" "isoper E0 = isoper0" "issuper E0 = issuper0"
  "eigenstates E0 = eigenstates0" "la_solve E0 = la_solve0" "liouvillian E0 = liouvillian0"
  by (simp_all add: E0_def)

subsection \<open>The concrete two-level system, evaluated\<close>

lemma class_sigmaz: "\<not> issuper E0 sigmaz" "isoper E0 sigmaz"
  by code_simp+

lemma class_basis0: "isket E0 basis0" "\<not> issuper E0 basis0" "\<not> isoper E0 basis0"
  by code_simp+

lemma class_liouv: "issuper E0 liouv_sigmaz"
  by code_simp

lemma class_rho: "\<not> isket E0 rho_basis0"
  by code_simp

lemma eig_sigmaz: "eigenstates E0 sigmaz = Inr ([1, - 1], [unit_ket 2 0, unit_ket 2 1])"
  by code_simp

lemma eig_liouv:
  "eigenstates E0 liouv_sigmaz =
     Inr ([0, 2 * \<i>, - (2 * \<i>), 0], [unit_ket 4 0, unit_ket 4 1, unit_ket 4 2, unit_ket 4 3])"
  by code_simp

lemma liouvillian_sigmaz: "liouvillian E0 sigmaz None = Inr liouv_sigmaz"
  by code_simp

lemma promote_basis0: "promote E0 basis0 = rho_basis0"
  by code_simp

lemma run_oper: "ode2es_out E0 sigmaz basis0 = Inr (Some es_oper0)"
  by code_simp

lemma run_super: "ode2es_out E0 liouv_sigmaz basis0 = Inr (Some es_super0)"
  by code_simp

subsection \<open>The evaluation in essolve\<close>

lemma length_expect: "length (expect E e (esval es tlist)) = length tlist"
  by (simp add: expect_def esval_def)

lemma fill_rows_Array:
  assumes "\<forall>n<length a. length (a ! n) = length tlist"
    and "k + length ops \<le> length a"
  shows "\<exists>a'. fill_rows E es tlist (enumerate k ops) (Array a) = Inr (Array a') \<and>
           length a' = length a \<and>
           (\<forall>n<length a. a' ! n =
              (if k \<le> n \<and> n < k + length ops then expect E (ops ! (n - k)) (esval es tlist)
               else a ! n))"
  using assms
proof (induction ops arbitrary: k a)
  case Nil
  then show ?case by auto
next
  case (Cons e ops)
  let ?xs = "expect E e (esval es tlist)"
  let ?a = "a[k := ?xs]"
  from Cons.prems have k: "k < length a" by simp
  with Cons.prems(1) have step: "set_row (Array a) k ?xs = Inr (Array ?a)"
    by (simp add: set_row_def length_expect)
  have rows: "\<forall>n<length ?a. length (?a ! n) = length tlist"
    using Cons.prems(1) k by (simp add: nth_list_update length_expect)
  have bound: "Suc k + length ops \<le> length ?a"
    using Cons.prems(2) by simp
  from Cons.IH [OF rows bound] obtain a' where
    a': "fill_rows E es tlist (enumerate (Suc k) ops) (Array ?a) = Inr (Array a')"
      "length a' = length ?a"
      "\<forall>n<length ?a. a' ! n =
         (if Suc k \<le> n \<and> n < Suc k + length ops
          then expect E (ops ! (n - Suc k)) (esval es tlist) else ?a ! n)"
    by blast
  have "\<forall>n<length a. a' ! n =
          (if k \<le> n \<and> n < k + length (e # ops)
           then expect E ((e # ops) ! (n - k)) (esval es tlist) else a ! n)"
  proof (intro allI impI)
    fix n assume n: "n < length a"
    show "a' ! n = (if k \<le> n \<and> n < k + length (e # ops)
           then expect E ((e # ops) ! (n - k)) (esval es tlist) else a ! n)"
    proof (cases "n = k")
      case True
      with a'(3) n show ?thesis by simp
    next
      case False
      with a'(3) n show ?thesis
        by (auto simp: nth_Cons' Suc_diff_Suc not_less less_Suc_eq_le)
    qed
  qed
  with a'(1,2) step show ?case by simp
qed

lemma expect_entries_Array:
  assumes "k + length ops \<le> length a"
  shows "expect_entries (enumerate k ops) (Array a) =
           Inr (map (\<lambda>(n, e). if isherm e then RealSeq (map Re (a ! n)) else ComplexSeq (a ! n))
                  (enumerate k ops))"
  using assms
  by (induction ops arbitrary: k) (simp_all add: get_row_def)

lemma essolve_result_eq:
  "essolve_result E es tlist e_ops =
     Inr \<lparr>solver = ''essolve'', times_od = tlist,
          expect_od = map (stored_seq E es tlist) e_ops\<rparr>"
proof (cases "e_ops = []")
  case True
  then show ?thesis by (simp add: essolve_result_def)
next
  case False
  let ?a = "replicate (length e_ops) (replicate (length tlist) (0::complex))"
  have "\<forall>n<length ?a. length (?a ! n) = length tlist" by simp
  moreover have "0 + length e_ops \<le> length ?a" by simp
  ultimately obtain a' where
    a': "fill_rows E es tlist (enumerate 0 e_ops) (Array ?a) = Inr (Array a')"
      "length a' = length ?a"
      "\<forall>n<length ?a. a' ! n =
         (if 0 \<le> n \<and> n < 0 + length e_ops then expect E (e_ops ! (n - 0)) (esval es tlist)
          else ?a ! n)"
    using fill_rows_Array [of ?a tlist 0 e_ops E es] by blast
  have len: "0 + length e_ops \<le> length a'" using a'(2) by simp
  have "map (\<lambda>(n, e). if isherm e then RealSeq (map Re (a' ! n)) else ComplexSeq (a' ! n))
          (enumerate 0 e_ops) = map (stored_seq E es tlist) e_ops"
    using a'(3) by (auto simp: list_eq_iff_nth_eq nth_enumerate_eq stored_seq_def)
  with a'(1) expect_entries_Array [OF len] False show ?thesis
    by (simp add: essolve_result_def)
qed

subsection \<open>Concrete runs\<close>

lemma tidy_oper0: "estidy es_oper0 = es_oper0"
  by code_simp

lemma tidy_super0: "estidy es_super0 = [(rho_basis0, 0), (zero_oper, 2 * \<i>), (zero_oper, - (2 * \<i>))]"
  by code_simp

lemma ode2es_oper0: "ode2es E0 sigmaz basis0 = Inr es_oper0"
  by (simp add: ode2es_def run_oper tidy_oper0)

lemma ode2es_super0: "ode2es E0 liouv_sigmaz basis0 = Inr (estidy es_super0)"
  by (simp add: ode2es_def run_super)





lemma gen0: "essolve_L E0 sigmaz basis0 None = Inr sigmaz"
  by (simp add: essolve_L_def class_basis0)

lemma shape0: "prod_shape (shape (initial_state E0 sigmaz basis0)) = 2"
  "prod_shape (shape (initial_state E0 liouv_sigmaz basis0)) = 4"
  by code_simp+

lemma terms_oper0:
  "term_oper [[1, 0], [0, 0]] [1, - 1] basis0 0 = Inr (eseries basis0 (- \<i>))"
  "term_oper [[1, 0], [0, 0]] [1, - 1] basis0 1 = Inr (eseries zero_ket \<i>)"
  by code_simp+

subsection \<open>The sum of the coefficients\<close>

lemma madd_commute: "madd a b = madd b a"
proof -
  have row: "map2 (+) x y = map2 (+) y x" for x y :: "complex list"
    by (induction x y rule: list_induct2') simp_all
  show ?thesis
    unfolding madd_def
    by (induction a b rule: list_induct2') (simp_all add: row)
qed

lemma madd_assoc: "madd (madd a b) c = madd a (madd b c)"
proof -
  have row: "map2 (+) (map2 (+) x y) z = map2 (+) x (map2 (+) y z)" for x y z :: "complex list"
  proof (induction x arbitrary: y z)
    case Nil
    then show ?case by simp
  next
    case (Cons a x)
    then show ?case by (cases y; cases z) simp_all
  qed
  show ?thesis
    unfolding madd_def
  proof (induction a arbitrary: b c)
    case Nil
    then show ?case by simp
  next
    case (Cons r a)
    then show ?case by (cases b; cases c) (simp_all add: row)
  qed
qed

lemma madd_left_commute: "madd a (madd b c) = madd b (madd a c)"
  by (metis madd_assoc madd_commute)

lemmas madd_ac = madd_assoc madd_commute madd_left_commute

lemma foldl_madd_shift: "foldl madd (madd a b) ms = madd a (foldl madd b ms)"
  by (induction ms arbitrary: b) (simp_all add: madd_assoc)

lemma foldl_madd_swap: "madd a (foldl madd b ms) = madd b (foldl madd a ms)"
  by (metis foldl_madd_shift madd_commute)

lemma msum_snoc: "ms \<noteq> [] \<Longrightarrow> msum (ms @ [m]) = madd (msum ms) m"
  by (cases ms) simp_all

lemma foldl_madd_msum: "ms \<noteq> [] \<Longrightarrow> foldl madd m ms = madd m (msum ms)"
  by (cases ms) (simp_all add: foldl_madd_shift)

lemma data_Qobj [simp]: "data (Qobj m d s) = m" "dims (Qobj m d s) = d" "shape (Qobj m d s) = s"
  by (simp_all add: Qobj_def)

lemma data_qadd: "data (qadd a b) = madd (data a) (data b)"
  by (simp add: qadd_def)

lemma data_foldl_qadd: "data (foldl qadd q qs) = foldl madd (data q) (map data qs)"
  by (induction qs arbitrary: q) (simp_all add: data_qadd)

lemma data_qsum: "data (qsum qs) = msum (map data qs)"
  by (cases qs) (simp_all add: data_foldl_qadd Qobj0_def)

lemma es_merge_nonempty: "es_merge t acc \<noteq> []"
  by (cases t; cases acc) (auto split: if_splits)

lemma msum_es_merge:
  "acc \<noteq> [] \<Longrightarrow>
     msum (map (\<lambda>x. data (fst x)) (es_merge t acc)) = madd (msum (map (\<lambda>x. data (fst x)) acc)) (data (fst t))"
proof (induction acc)
  case Nil
  then show ?case by simp
next
  case (Cons a acc)
  obtain q s where t: "t = (q, s)" by (cases t)
  obtain q' s' where a: "a = (q', s')" by (cases a)
  show ?case
  proof (cases "s' = s")
    case True
    then show ?thesis
      by (simp add: t a data_qadd foldl_madd_shift) (metis foldl_madd_swap madd_commute)
  next
    case False
    show ?thesis
    proof (cases "acc = []")
      case True
      with False show ?thesis by (simp add: t a)
    next
      case acc: False
      have "msum (map (\<lambda>x. data (fst x)) (es_merge t (a # acc))) =
              madd (data q') (msum (map (\<lambda>x. data (fst x)) (es_merge t acc)))"
        using False by (simp add: t a foldl_madd_msum es_merge_nonempty)
      also have "\<dots> = madd (data q') (madd (msum (map (\<lambda>x. data (fst x)) acc)) (data (fst t)))"
        using Cons.IH [OF acc] by simp
      also have "\<dots> = madd (msum (map (\<lambda>x. data (fst x)) (a # acc))) (data (fst t))"
        using acc by (simp add: a foldl_madd_msum madd_assoc)
      finally show ?thesis .
    qed
  qed
qed

lemma estidy_snoc: "estidy (es @ [t]) = es_merge t (estidy es)"
  by (simp add: estidy_def)

lemma estidy_nonempty: "es \<noteq> [] \<Longrightarrow> estidy es \<noteq> []"
  by (induction es rule: rev_induct) (simp_all add: estidy_snoc es_merge_nonempty)

lemma estidy_Nil: "estidy [] = []"
  by (simp add: estidy_def)

lemma msum_estidy: "msum (map (\<lambda>x. data (fst x)) (estidy es)) = msum (map (\<lambda>x. data (fst x)) es)"
proof (induction es rule: rev_induct)
  case Nil
  then show ?case by (simp add: estidy_Nil)
next
  case (snoc t es)
  show ?case
  proof (cases "es = []")
    case True
    then show ?thesis by (cases t) (simp add: estidy_def)
  next
    case False
    then show ?thesis
      using snoc by (simp add: estidy_snoc msum_es_merge estidy_nonempty msum_snoc)
  qed
qed

lemma data_qscale_one: "data (qscale 1 q) = data q"
  by (simp add: qscale_def map_idI)

lemma data_es_value_zero: "data (es_value es 0) = msum (map (\<lambda>x. data (fst x)) es)"
proof -
  have "data (es_value es 0) =
          msum (map data (map (\<lambda>(q, s). qscale (exp (s * complex_of_real 0)) q) es))"
    by (simp only: es_value_def data_qsum)
  also have "map data (map (\<lambda>(q, s). qscale (exp (s * complex_of_real 0)) q) es) =
               map (\<lambda>x. data (fst x)) es"
    by (induction es) (auto simp: data_qscale_one)
  finally show ?thesis .
qed

lemma sum_list_delta:
  "j < n \<Longrightarrow> (\<Sum>l\<leftarrow>[0..<n]. f l * (if l = j then c else 0)) = f j * (c::complex)"
proof (induction n)
  case 0
  then show ?case by simp
next
  case (Suc n)
  show ?case
  proof (cases "j = n")
    case True
    have "(\<Sum>l\<leftarrow>[0..<n]. f l * (if l = n then c else 0)) = (\<Sum>l\<leftarrow>[0..<n]. 0)"
      by (rule arg_cong [where f = sum_list]) simp
    then show ?thesis using True by simp
  next
    case False
    with Suc show ?thesis by simp
  qed
qed

lemma ncols_map_upt: "0 < r \<Longrightarrow> ncols (map (\<lambda>i. map (f i) [0..<c]) [0..<r]) = c"
  by (simp add: ncols_def upt_conv_Cons)

lemma spdiags_single:
  "spdiags [d0] m n =
     Inr (map (\<lambda>i. map (\<lambda>j. if i = j \<and> j < length d0 then d0 ! j else 0) [0..<n]) [0..<m])"
  by (simp add: spdiags_def)

lemma mat_mul_diag:
  assumes "list_all (\<lambda>r. length r = n) v" and "0 < n"
  shows "mat_mul v (map (\<lambda>i. map (\<lambda>j. if i = j \<and> j < k then d ! j else 0) [0..<n]) [0..<n]) =
           map (\<lambda>r. map (\<lambda>j. r ! j * (if j < k then d ! j else 0)) [0..<n]) v"
proof -
  let ?D = "map (\<lambda>i. map (\<lambda>j. if i = j \<and> j < k then d ! j else 0) [0..<n]) [0..<n]"
  have nc: "ncols ?D = n" using assms(2) by (rule ncols_map_upt)
  have "(\<Sum>l\<leftarrow>[0..<n]. r ! l * ?D ! l ! j) = r ! j * (if j < k then d ! j else 0)"
    if "j < n" for r :: "complex list" and j
  proof -
    have "map (\<lambda>l. r ! l * ?D ! l ! j) [0..<n] =
            map (\<lambda>l. r ! l * (if l = j then (if j < k then d ! j else 0) else 0)) [0..<n]"
      using that by (intro map_cong) auto
    then show ?thesis using that by (simp only: sum_list_delta)
  qed
  then show ?thesis
    using assms(1) unfolding mat_mul_def nc
    by (intro map_cong) (auto simp: list_all_iff)
qed

lemma msum_grid:
  "msum (map (\<lambda>i. map (\<lambda>p. map (\<lambda>q. g i p q) [0..<c]) [0..<r]) [0..<Suc n]) =
     map (\<lambda>p. map (\<lambda>q. \<Sum>i\<leftarrow>[0..<Suc n]. g i p q) [0..<c]) [0..<r]"
proof (induction n)
  case 0
  then show ?case by simp
next
  case (Suc n)
  have "msum (map (\<lambda>i. map (\<lambda>p. map (\<lambda>q. g i p q) [0..<c]) [0..<r]) [0..<Suc (Suc n)]) =
          madd (msum (map (\<lambda>i. map (\<lambda>p. map (\<lambda>q. g i p q) [0..<c]) [0..<r]) [0..<Suc n]))
            (map (\<lambda>p. map (\<lambda>q. g (Suc n) p q) [0..<c]) [0..<r])"
    using msum_snoc [of "map (\<lambda>i. map (\<lambda>p. map (\<lambda>q. g i p q) [0..<c]) [0..<r]) [0..<Suc n]"]
    by simp
  also have "\<dots> = map (\<lambda>p. map (\<lambda>q. \<Sum>i\<leftarrow>[0..<Suc (Suc n)]. g i p q) [0..<c]) [0..<r]"
    unfolding Suc.IH madd_def
    by (simp add: map2_map_map zip_same_conv_map)
  finally show ?case .
qed

lemma solve_facts:
  assumes "matmul v v0 = Inr r0" and "is_matrix N 1 r0" and "0 < N"
  shows "length v = N" and "list_all (\<lambda>r. length r = length v0) v"
    and "mT v0 = [map (\<lambda>r. r ! 0) v0]"
    and "\<forall>p<N. (\<Sum>l\<leftarrow>[0..<length v0]. v ! p ! l * v0 ! l ! 0) = r0 ! p ! 0"
proof -
  from assms(1) have rows: "list_all (\<lambda>r. length r = length v0) v"
    and r0: "r0 = mat_mul v v0"
    by (auto simp: matmul_def nrows_def split: if_splits)
  from r0 assms(2) show len: "length v = N"
    by (simp add: mat_mul_def is_matrix_def)
  from r0 assms(2,3) len have "length (mat_mul v v0 ! 0) = 1"
    by (auto simp: is_matrix_def list_all_length)
  with len assms(3) have nc: "ncols v0 = 1"
    by (simp add: mat_mul_def)
  then show "mT v0 = [map (\<lambda>r. r ! 0) v0]"
    by (simp add: mT_def)
  show "list_all (\<lambda>r. length r = length v0) v" by (rule rows)
  show "\<forall>p<N. (\<Sum>l\<leftarrow>[0..<length v0]. v ! p ! l * v0 ! l ! 0) = r0 ! p ! 0"
    using rows len nc by (auto simp: r0 mat_mul_def list_all_length)
qed

lemma vv_facts:
  assumes "matmul v v0 = Inr r0" and "is_matrix N 1 r0" and "0 < N"
    and "spdiags (mT v0) N N = Inr D" and "matmul v D = Inr vv"
  shows "vv = map (\<lambda>r. map (\<lambda>j. r ! j * v0 ! j ! 0) [0..<N]) v"
    and "length vv = N"
    and "\<forall>p<N. (\<Sum>i\<leftarrow>[0..<N]. vv ! p ! i) = r0 ! p ! 0"
proof -
  note sf = solve_facts [OF assms(1,2,3)]
  let ?d = "map (\<lambda>r. r ! 0) v0"
  from assms(4) have D: "D = map (\<lambda>i. map (\<lambda>j. if i = j \<and> j < length ?d then ?d ! j else 0) [0..<N])
      [0..<N]"
    by (simp add: sf(3) spdiags_single)
  from assms(5) have rowsN: "list_all (\<lambda>r. length r = N) v" and vv: "vv = mat_mul v D"
    by (auto simp: matmul_def nrows_def D split: if_splits)
  from sf(1) assms(3) obtain r where "r \<in> set v"
    by (cases v) auto
  with rowsN sf(2) have lv0: "length v0 = N"
    by (auto simp: list_all_iff)
  have "vv = map (\<lambda>r. map (\<lambda>j. r ! j * (if j < length ?d then ?d ! j else 0)) [0..<N]) v"
    unfolding vv D using rowsN assms(3) by (rule mat_mul_diag)
  also have "\<dots> = map (\<lambda>r. map (\<lambda>j. r ! j * v0 ! j ! 0) [0..<N]) v"
    by (intro map_cong refl) (simp add: lv0)
  finally show vveq: "vv = map (\<lambda>r. map (\<lambda>j. r ! j * v0 ! j ! 0) [0..<N]) v" .
  then show "length vv = N" by (simp add: sf(1))
  show "\<forall>p<N. (\<Sum>i\<leftarrow>[0..<N]. vv ! p ! i) = r0 ! p ! 0"
  proof (intro allI impI)
    fix p assume p: "p < N"
    have "(\<Sum>i\<leftarrow>[0..<N]. vv ! p ! i) = (\<Sum>l\<leftarrow>[0..<N]. v ! p ! l * v0 ! l ! 0)"
      using p sf(1) by (intro arg_cong [where f = sum_list] map_cong refl) (simp add: vveq)
    with sf(4) p lv0 show "(\<Sum>i\<leftarrow>[0..<N]. vv ! p ! i) = r0 ! p ! 0" by simp
  qed
qed

lemma isqrt_square: "isqrt (m * m) = m"
proof (cases m)
  case 0
  then show ?thesis by (simp add: isqrt_def)
next
  case (Suc k)
  then have le: "Suc m \<le> Suc (m * m)" by simp
  have P: "k * k \<le> m * m \<longleftrightarrow> k \<le> m" for k
    using power2_nat_le_eq_le [of k m] by (simp add: power2_eq_square)
  from le obtain d where d: "Suc (m * m) = Suc m + d"
    using le_Suc_ex by blast
  have "[1..<Suc m + d] = [1..<Suc m] @ [Suc m..<Suc m + d]"
    by (rule upt_add_eq_append) simp
  then have split: "[1..<Suc (m * m)] = [1..<Suc m] @ [Suc m..<Suc (m * m)]"
    by (simp only: d)
  have low: "filter (\<lambda>k. k * k \<le> m * m) [1..<Suc m] = [1..<Suc m]"
    by (rule filter_True) (simp add: P del: upt_Suc)
  have high: "filter (\<lambda>k. k * k \<le> m * m) [Suc m..<Suc (m * m)] = []"
    by (rule filter_False) (simp add: P del: upt_Suc)
  have "filter (\<lambda>k. k * k \<le> m * m) [1..<Suc (m * m)] = [1..<Suc m]"
    by (simp only: split filter_append low high append_Nil2)
  then show ?thesis by (simp add: isqrt_def del: upt_Suc)
qed

lemma index_bound:
  assumes "p < m" and "q < (r::nat)"
  shows "q * m + p < r * m"
proof -
  have "q * m + p < Suc q * m" using assms(1) by simp
  also have "\<dots> \<le> r * m" using assms(2) by (intro mult_le_mono1) simp
  finally show ?thesis .
qed

lemma nth_concat_rect:
  assumes "list_all (\<lambda>r. length r = c) xss" and "a < length xss" and "j < c"
  shows "concat xss ! (a * c + j) = xss ! a ! j"
  using assms
proof (induction xss arbitrary: a)
  case Nil
  then show ?case by simp
next
  case (Cons xs xss)
  show ?case
  proof (cases a)
    case 0
    with Cons.prems show ?thesis by (simp add: nth_append)
  next
    case (Suc b)
    with Cons.prems have "concat xss ! (b * c + j) = xss ! b ! j"
      by (intro Cons.IH) simp_all
    with Cons.prems Suc show ?thesis by (simp add: nth_append)
  qed
qed

lemma length_concat_rect:
  "list_all (\<lambda>r. length r = c) xss \<Longrightarrow> length (concat xss) = length xss * c"
  by (induction xss) simp_all

lemma is_matrix_eq:
  assumes "is_matrix r c m"
  shows "m = map (\<lambda>p. map (\<lambda>q. m ! p ! q) [0..<c]) [0..<r]"
proof -
  from assms have "length m = r" and rows: "\<And>p. p < r \<Longrightarrow> length (m ! p) = c"
    by (auto simp: is_matrix_def list_all_length)
  then show ?thesis
    by (auto simp: list_eq_iff_nth_eq)
qed

lemma mat2vec_square:
  assumes "is_matrix m m a" and "0 < m"
  shows "\<exists>r0. mat2vec a = Inr r0 \<and> is_matrix (m * m) 1 r0 \<and>
           (\<forall>p<m. \<forall>q<m. r0 ! (q * m + p) ! 0 = a ! p ! q)"
proof -
  from assms have len: "length a = m" and rows: "\<And>p. p < m \<Longrightarrow> length (a ! p) = m"
    by (auto simp: is_matrix_def list_all_length)
  from assms(2) len rows [of 0] have nc: "ncols a = m"
    by (cases a) (auto simp: ncols_def)
  let ?t = "mT a"
  have t: "?t = map (\<lambda>j. map (\<lambda>r. r ! j) a) [0..<m]"
    by (simp add: mT_def nc)
  then have trows: "list_all (\<lambda>r. length r = m) ?t" and tlen: "length ?t = m"
    by (simp_all add: list_all_iff len)
  have clen: "length (concat ?t) = m * m"
    using length_concat_rect [OF trows] tlen by simp
  let ?r0 = "map (\<lambda>i. map (\<lambda>j. concat ?t ! (i * 1 + j)) [0..<1]) [0..<m * m]"
  have "mat2vec a = Inr ?r0"
    using clen by (simp add: mat2vec_def reshape_def nrows_def len nc)
  moreover have "is_matrix (m * m) 1 ?r0"
    by (simp add: is_matrix_def list_all_iff)
  moreover have "\<forall>p<m. \<forall>q<m. ?r0 ! (q * m + p) ! 0 = a ! p ! q"
  proof (intro allI impI)
    fix p q assume p: "p < m" and q: "q < m"
    then have "q * m + p < m * m"
      by (rule index_bound)
    then have "?r0 ! (q * m + p) ! 0 = concat ?t ! (q * m + p)"
      by simp
    also have "\<dots> = ?t ! q ! p"
      using trows tlen p q by (intro nth_concat_rect) simp_all
    also have "\<dots> = a ! p ! q"
      using p q len by (simp add: t)
    finally show "?r0 ! (q * m + p) ! 0 = a ! p ! q" .
  qed
  ultimately show ?thesis by blast
qed

lemma vec2mat_square:
  assumes "length vec = m * m" and "0 < m"
  shows "vec2mat vec = Inr (map (\<lambda>p. map (\<lambda>q. vec ! (q * m + p)) [0..<m]) [0..<m])"
proof -
  let ?R = "map (\<lambda>i. map (\<lambda>j. vec ! (i * m + j)) [0..<m]) [0..<m]"
  have "ncols ?R = m" using assms(2) by (rule ncols_map_upt)
  then have "mT ?R = map (\<lambda>p. map (\<lambda>q. vec ! (q * m + p)) [0..<m]) [0..<m]"
    by (simp add: mT_def map_upt_eqI)
  then show ?thesis
    by (simp add: vec2mat_def assms(1) isqrt_square reshape_def)
qed

lemma map_rows_upt: "length xs = n \<Longrightarrow> map f xs = map (\<lambda>p. f (xs ! p)) [0..<n]"
  by (auto simp: list_eq_iff_nth_eq)

lemma oper_sum:
  assumes run: "ode2es_oper E L \<rho> = Inr (Some out)"
    and exact: "exact_solver E"
    and wf: "is_matrix (fst (shape \<rho>)) 1 (data \<rho>)" "snd (shape \<rho>) = 1"
  shows "msum (map (\<lambda>x. data (fst x)) out) = data \<rho>"
  using run
proof (rule ode2es_oper_steps)
  fix w kets v v0 d vv
  let ?N = "prod_shape (shape \<rho>)"
  assume solve: "la_solve E v (full \<rho>) = Inr v0"
    and diag: "spdiags (mT v0) ?N ?N = Inr d"
    and prod: "matmul v d = Inr vv"
    and r: "Some out = (if ?N = 0 then None
          else Some (map (\<lambda>i. (coeff_oper vv \<rho> i, - \<i> * w ! i)) [0..<?N]))"
  from r have pos: "0 < ?N" and out: "out = map (\<lambda>i. (coeff_oper vv \<rho> i, - \<i> * w ! i)) [0..<?N]"
    by (auto split: if_splits)
  have N: "?N = fst (shape \<rho>)" by (simp add: prod_shape_def wf(2))
  from wf(1) have r0: "is_matrix ?N 1 (data \<rho>)" by (simp add: N)
  from solve exact have ex: "matmul v v0 = Inr (data \<rho>)"
    by (simp add: exact_solver_def full_def)
  note vf = vv_facts [OF ex r0 pos diag prod]
  from pos obtain n where n: "?N = Suc n" by (cases ?N) auto
  have "map (\<lambda>x. data (fst x)) out =
          map (\<lambda>i. map (\<lambda>p. map (\<lambda>q. vv ! p ! i) [0..<1]) [0..<?N]) [0..<?N]"
    unfolding out
    by (simp add: coeff_oper_def col_matrix_def comp_def map_rows_upt [OF vf(2)])
  then have "msum (map (\<lambda>x. data (fst x)) out) =
          map (\<lambda>p. map (\<lambda>q. \<Sum>i\<leftarrow>[0..<?N]. vv ! p ! i) [0..<1]) [0..<?N]"
    unfolding n by (simp only: msum_grid)
  also have "\<dots> = map (\<lambda>p. map (\<lambda>q. data \<rho> ! p ! q) [0..<1]) [0..<?N]"
    using vf(3) by (intro map_cong refl) simp
  also have "\<dots> = data \<rho>"
    by (rule is_matrix_eq [OF r0, symmetric])
  finally show ?thesis .
qed

lemma super_sum:
  assumes run: "ode2es_super E L \<rho> = Inr (Some out)"
    and exact: "exact_solver E"
    and wf: "is_matrix (fst (shape \<rho>)) (snd (shape \<rho>)) (data \<rho>)" "fst (shape \<rho>) = snd (shape \<rho>)"
  shows "msum (map (\<lambda>x. data (fst x)) out) = data \<rho>"
  using run
proof (rule ode2es_super_steps)
  fix w kets v r0 v0 d vv
  let ?N = "prod_shape (shape \<rho>)"
  let ?m = "fst (shape \<rho>)"
  assume vec: "mat2vec (full \<rho>) = Inr r0"
    and solve: "la_solve E v r0 = Inr v0"
    and diag: "spdiags (mT v0) ?N ?N = Inr d"
    and prod: "matmul v d = Inr vv"
    and r: "Some out = (if ?N = 0 then None
          else Some (map (\<lambda>i. (coeff_super vv \<rho> i, w ! i)) [0..<?N]))"
  from r have pos: "0 < ?N" and out: "out = map (\<lambda>i. (coeff_super vv \<rho> i, w ! i)) [0..<?N]"
    by (auto split: if_splits)
  have N: "?N = ?m * ?m" by (simp add: prod_shape_def wf(2))
  with pos have m: "0 < ?m" by simp
  from wf have sq: "is_matrix ?m ?m (data \<rho>)" by simp
  from mat2vec_square [OF sq m] vec have r0: "is_matrix ?N 1 r0"
    and entries: "\<forall>p<?m. \<forall>q<?m. r0 ! (q * ?m + p) ! 0 = data \<rho> ! p ! q"
    by (auto simp: full_def N)
  from solve exact have ex: "matmul v v0 = Inr r0"
    by (simp add: exact_solver_def)
  note vf = vv_facts [OF ex r0 pos diag prod]
  from pos obtain n where n: "?N = Suc n" by (cases ?N) auto
  have coeff: "data (coeff_super vv \<rho> i) = map (\<lambda>p. map (\<lambda>q. vv ! (q * ?m + p) ! i) [0..<?m]) [0..<?m]"
    for i
  proof -
    let ?vec = "map (\<lambda>r. r ! i) vv"
    have len: "length ?vec = ?m * ?m" using vf(2) N by simp
    have "vec2mat ?vec = Inr (map (\<lambda>p. map (\<lambda>q. ?vec ! (q * ?m + p)) [0..<?m]) [0..<?m])"
      using len m by (rule vec2mat_square)
    moreover have "?vec ! (q * ?m + p) = vv ! (q * ?m + p) ! i" if "p < ?m" "q < ?m" for p q
    proof -
      from that have "q * ?m + p < ?m * ?m" by (rule index_bound)
      then show ?thesis using vf(2) N by simp
    qed
    ultimately show ?thesis
      by (simp add: coeff_super_def cong: map_cong)
  qed
  have "map (\<lambda>x. data (fst x)) out =
          map (\<lambda>i. map (\<lambda>p. map (\<lambda>q. vv ! (q * ?m + p) ! i) [0..<?m]) [0..<?m]) [0..<?N]"
    unfolding out by (simp add: comp_def coeff)
  then have "msum (map (\<lambda>x. data (fst x)) out) =
          map (\<lambda>p. map (\<lambda>q. \<Sum>i\<leftarrow>[0..<?N]. vv ! (q * ?m + p) ! i) [0..<?m]) [0..<?m]"
    unfolding n by (simp only: msum_grid)
  also have "\<dots> = map (\<lambda>p. map (\<lambda>q. data \<rho> ! p ! q) [0..<?m]) [0..<?m]"
  proof (intro map_cong refl)
    fix p q assume "p \<in> set [0..<?m]" "q \<in> set [0..<?m]"
    then have p: "p < ?m" and q: "q < ?m" by simp_all
    then have "q * ?m + p < ?N" unfolding N by (rule index_bound)
    with vf(3) have "(\<Sum>i\<leftarrow>[0..<?N]. vv ! (q * ?m + p) ! i) = r0 ! (q * ?m + p) ! 0"
      by simp
    with entries p q show "(\<Sum>i\<leftarrow>[0..<?N]. vv ! (q * ?m + p) ! i) = data \<rho> ! p ! q"
      by simp
  qed
  also have "\<dots> = data \<rho>"
    by (rule is_matrix_eq [OF sq, symmetric])
  finally show ?thesis .
qed

lemma same_frame_qadd: "same_frame \<rho> a \<Longrightarrow> same_frame \<rho> (qadd a b)"
  by (simp add: same_frame_def qadd_def)

lemma same_frame_es_merge:
  "same_frame \<rho> (fst t) \<Longrightarrow> list_all (\<lambda>x. same_frame \<rho> (fst x)) acc \<Longrightarrow>
     list_all (\<lambda>x. same_frame \<rho> (fst x)) (es_merge t acc)"
  by (induction t acc rule: es_merge.induct) (simp_all add: same_frame_qadd)

lemma same_frame_estidy:
  "list_all (\<lambda>x. same_frame \<rho> (fst x)) es \<Longrightarrow> list_all (\<lambda>x. same_frame \<rho> (fst x)) (estidy es)"
  by (induction es rule: rev_induct) (simp_all add: estidy_Nil estidy_snoc same_frame_es_merge)

lemma same_frame_foldl: "same_frame \<rho> q \<Longrightarrow> same_frame \<rho> (foldl qadd q qs)"
  by (induction qs arbitrary: q) (simp_all add: same_frame_qadd)

lemma same_frame_es_value:
  assumes "es \<noteq> []" and "list_all (\<lambda>x. same_frame \<rho> (fst x)) es"
  shows "same_frame \<rho> (es_value es t)"
proof -
  from assms obtain q s rest where es: "es = (q, s) # rest" and q: "same_frame \<rho> q"
    by (cases es) auto
  from q have "same_frame \<rho> (qscale (exp (s * complex_of_real t)) q)"
    by (simp add: same_frame_def qscale_def)
  then show ?thesis
    by (simp add: es_value_def es same_frame_foldl)
qed

lemma exact_solver_E0: "exact_solver E0"
  by (auto simp: exact_solver_def E0_simps la_solve0_def split: if_splits)

lemma wf0: "state_wellformed E0 sigmaz basis0" "state_wellformed E0 liouv_sigmaz basis0"
  by code_simp+

lemma value0:
  "data (es_value es_oper0 0) = [[1], [0]]"
  "data (es_value (estidy es_super0) 0) = [[1, 0], [0, 0]]"
  by (simp_all add: data_es_value_zero tidy_oper0 tidy_super0)
    (code_simp+)

subsection \<open>The two-level scenario\<close>

lemma cnj_exp: "cnj (exp z) = exp (cnj z)"
  by (simp add: complex_eq_iff Re_exp Im_exp)

lemma unit_norm: "cnj (exp (- (\<i> * complex_of_real t))) * exp (- (\<i> * complex_of_real t)) = 1"
  by (simp add: cnj_exp exp_minus_inverse)

lemma state_oper0:
  "data (es_value es_oper0 t) = [[exp (- (\<i> * complex_of_real t))], [0]]"
  "same_frame basis0 (es_value es_oper0 t)"
  by (simp_all add: es_value_def es_oper0_def qadd_def qscale_def madd_def basis0_def
      zero_ket_def unit_ket_def same_frame_def upt_conv_Cons)

lemma data_sigmaz: "data sigmaz = [[1, 0], [0, - 1]]" "isherm sigmaz"
  by code_simp+

lemma expect_oper0_at:
  assumes "\<forall>q. same_frame basis0 q \<longrightarrow> isket E q"
  shows "expect1 E sigmaz (es_value es_oper0 t) = 1"
proof -
  from assms have "isket E (es_value es_oper0 t)"
    by (simp add: state_oper0)
  then show ?thesis
    by (simp add: expect1_def state_oper0 data_sigmaz mat_mul_def dagger_def mT_def ncols_def
        upt_conv_Cons unit_norm)
qed

lemma loop_oper0:
  "es_loop (term_oper [[1, 0], [0, 0]] [1, - 1] basis0) [0..<2] None = Inr (Some es_oper0)"
  by code_simp

lemma basis0_fields: "full basis0 = [[1], [0]]" "prod_shape (shape basis0) = 2"
  by code_simp+

lemma solve_two_level:
  assumes "matmul [[1, 0], [0, 1]] x = Inr [[1], [0]]"
  shows "mT x = [[1, 0]]"
proof -
  have m: "is_matrix 2 1 [[1], [0]]" by (simp add: is_matrix_def)
  note sf = solve_facts [OF assms m]
  from sf(2) have len: "length x = 2" by simp
  then obtain a b where x: "x = [a, b]"
    by (cases x; cases "tl x") auto
  from sf(4) have all: "\<forall>p<2. (\<Sum>l\<leftarrow>[0..<2]. [[1, 0], [0, 1]] ! p ! l * x ! l ! 0) = [[1], [0::complex]] ! p ! 0"
    by (simp add: len)
  have p: "(0::nat) < 2" "(1::nat) < 2" by simp_all
  from all [rule_format, OF p(1)] all [rule_format, OF p(2)]
  have "a ! 0 = 1" "b ! 0 = 0"
    by (simp_all add: x upt_conv_Cons)
  with sf(3) show ?thesis by (simp add: x)
qed

lemma two_level_series:
  assumes "\<not> issuper E sigmaz" and "isoper E sigmaz" and "isket E basis0"
    and "eigenstates E sigmaz = Inr ([1, - 1], [k0, k1])"
    and "data k0 = [[1], [0]]" and "data k1 = [[0], [1]]"
    and "exact_solver E" and "la_solve E [[1, 0], [0, 1]] [[1], [0]] = Inr x"
  shows "ode2es_out E sigmaz basis0 = Inr (Some es_oper0)"
proof -
  have v: "hstack [full k0, full k1] = Inr [[1, 0], [0, 1]]"
    by (simp add: hstack_def full_def nrows_def assms(5,6) upt_conv_Cons)
  from assms(7,8) have "matmul [[1, 0], [0, 1]] x = Inr [[1], [0]]"
    by (simp add: exact_solver_def)
  then have x: "mT x = [[1, 0]]" by (rule solve_two_level)
  have d: "spdiags [[1, 0]] 2 2 = Inr [[1, 0], [0, 0]]"
    by code_simp
  have vv: "matmul [[1, 0], [0, 1]] [[1, 0], [0, 0]] = Inr [[1, 0], [0, 0]]"
    by code_simp
  show ?thesis
    by (simp add: ode2es_out_def ode2es_oper_def solve_and_build_def assms(1-4,8) v
        basis0_fields x d vv loop_oper0 Let_def)
qed

lemma projected0:
  "data basis0 = mat_mul [[1, 0], [0, 0]] [[1], [0]]"
  "data zero_ket = mat_mul [[0, 0], [0, 1]] [[1], [0]]"
  "data basis0 = data (qscale 1 (unit_ket 2 0))"
  "data zero_ket = data (qscale 0 (unit_ket 2 1))"
  by code_simp+

lemma frame_basis0: "same_frame basis0 basis0"
  by (simp add: same_frame_def)

lemma solve0: "la_solve E0 [[1, 0], [0, 1]] [[1], [0]] = Inr [[1], [0]]"
  by code_simp

lemma kets0: "data (unit_ket 2 0) = [[1], [0]]" "data (unit_ket 2 1) = [[0], [1]]"
  by code_simp+

lemma isket_frame0: "\<forall>q. same_frame basis0 q \<longrightarrow> isket E0 q"
proof -
  have "shape basis0 = (2, 1)" by code_simp
  then show ?thesis
    by (simp add: same_frame_def E0_simps isket0_def)
qed

lemma no_collapse_simps:
  "no_collapse None" "no_collapse (Some [])" "\<not> no_collapse (Some (c # cs))"
  by (simp_all add: no_collapse_def)

subsection \<open>The claims\<close>

text \<open>
  C1.  When \<open>ode2es\<close> reaches its last line with the accumulated series \<open>out\<close>, and
  \<open>w\<close> are the eigenvalues the eigensolver returned for the generator, then every
  \<open>i\<close> in \<open>range(rlen)\<close>, \<open>rlen\<close> being \<open>prod(shape)\<close> of the initial state the
  branch works with, is an index of \<open>out\<close> and of \<open>w\<close>, and the rate of the \<open>i\<close>-th
  term is \<open>w[i]\<close> itself when the generator is a superoperator; otherwise the
  generator is an operator, the initial state is a ket, and the rate is \<open>-i * w[i]\<close>.
\<close>

theorem rate_convention:
  assumes "ode2es_out E L rho0 = Inr (Some out)"
    and "eigenstates E L = Inr (w, kets)"
    and "i < prod_shape (shape (initial_state E L rho0))"
  shows "i < length out \<and> i < length w \<and>
         (if issuper E L then snd (out ! i) = w ! i
          else isoper E L \<and> isket E rho0 \<and> snd (out ! i) = - \<i> * w ! i)"
proof -
  from ode2es_out_cases [OF assms(1)] show ?thesis
  proof (elim disjE conjE)
    assume sup: "issuper E L" and run: "ode2es_super E L (promote E rho0) = Inr (Some out)"
    from run assms(2,3) sup show ?thesis
      by (elim ode2es_super_steps) (auto simp: initial_state_def split: if_splits)
  next
    assume "\<not> issuper E L" "isoper E L" "isket E rho0"
      and run: "ode2es_oper E L rho0 = Inr (Some out)"
    from run assms(2,3) this(1,2,3) show ?thesis
      by (elim ode2es_oper_steps) (auto simp: initial_state_def split: if_splits)
  qed
qed

theorem rate_convention_witness:
  "ode2es_out E0 sigmaz basis0 = Inr (Some es_oper0) \<and>
   eigenstates E0 sigmaz = Inr ([1, - 1], [unit_ket 2 0, unit_ket 2 1]) \<and>
   length es_oper0 = 2 \<and>
   snd (es_oper0 ! 0) = - \<i> * 1 \<and> snd (es_oper0 ! 1) = - \<i> * (- 1) \<and>
   ode2es_out E0 liouv_sigmaz basis0 = Inr (Some es_super0) \<and>
   length es_super0 = 4 \<and>
   snd (es_super0 ! 1) = 2 * \<i> \<and> snd (es_super0 ! 2) = - (2 * \<i>)"
proof -
  have "(0::nat) < 2" "(1::nat) < 2" "(1::nat) < 4" "(2::nat) < 4" by simp_all
  with rate_convention [OF run_oper eig_sigmaz, of 0]
    rate_convention [OF run_oper eig_sigmaz, of 1]
    rate_convention [OF run_super eig_liouv, of 1]
    rate_convention [OF run_super eig_liouv, of 2]
  show ?thesis
    by (simp add: shape0 class_sigmaz class_liouv run_oper run_super eig_sigmaz
        es_oper0_def es_super0_def)
qed

text \<open>
  C2.  Let \<open>ode2es\<close> return the series \<open>es\<close>, let every answer of the linear solver
  be an exact solution, and let the initial state (after the promotion of a ket in the
  superoperator branch) be a matrix of its own shape, square in the superoperator
  branch and a column in the operator branch.  Then the coefficient matrices of \<open>es\<close>
  add up to the matrix of that state, and the value of \<open>es\<close> at time 0 has the
  matrix, the dims and the shape of that state.
\<close>

theorem reconstruction_at_zero:
  assumes "ode2es E L rho0 = Inr es"
    and "exact_solver E"
    and "state_wellformed E L rho0"
  shows "msum (map (\<lambda>x. data (fst x)) es) = data (initial_state E L rho0) \<and>
         data (es_value es 0) = data (initial_state E L rho0) \<and>
         dims (es_value es 0) = dims (initial_state E L rho0) \<and>
         shape (es_value es 0) = shape (initial_state E L rho0)"
proof -
  let ?\<rho> = "initial_state E L rho0"
  from assms(1) obtain out where
    out: "ode2es_out E L rho0 = Inr (Some out)" and es: "es = estidy out"
    by (auto simp: ode2es_def split: sum.splits option.splits)
  have sum: "msum (map (\<lambda>x. data (fst x)) out) = data ?\<rho>" and ne: "out \<noteq> []"
    and frame: "list_all (\<lambda>x. same_frame ?\<rho> (fst x)) out"
  proof -
    from ode2es_out_cases [OF out]
    have "msum (map (\<lambda>x. data (fst x)) out) = data ?\<rho> \<and> out \<noteq> [] \<and>
            list_all (\<lambda>x. same_frame ?\<rho> (fst x)) out"
    proof (elim disjE conjE)
      assume sup: "issuper E L" and run: "ode2es_super E L (promote E rho0) = Inr (Some out)"
      from sup have \<rho>: "?\<rho> = promote E rho0" by (simp add: initial_state_def)
      from assms(3) sup have wf: "is_matrix (fst (shape ?\<rho>)) (snd (shape ?\<rho>)) (data ?\<rho>)"
        "fst (shape ?\<rho>) = snd (shape ?\<rho>)"
        by (auto simp: state_wellformed_def Let_def)
      from run assms(2) wf have "msum (map (\<lambda>x. data (fst x)) out) = data ?\<rho>"
        unfolding \<rho> by (rule super_sum)
      moreover from run have "out \<noteq> [] \<and> list_all (\<lambda>x. same_frame ?\<rho> (fst x)) out"
        unfolding \<rho>
        by (elim ode2es_super_steps)
          (auto simp: list_all_iff same_frame_def coeff_super_def split: if_splits)
      ultimately show ?thesis by simp
    next
      assume nsup: "\<not> issuper E L" and run: "ode2es_oper E L rho0 = Inr (Some out)"
      from nsup have \<rho>: "?\<rho> = rho0" by (simp add: initial_state_def)
      from assms(3) nsup have wf: "is_matrix (fst (shape rho0)) 1 (data rho0)"
        "snd (shape rho0) = 1"
        by (auto simp: state_wellformed_def Let_def \<rho>)
      from run assms(2) wf have "msum (map (\<lambda>x. data (fst x)) out) = data rho0"
        by (rule oper_sum)
      moreover from run have "out \<noteq> [] \<and> list_all (\<lambda>x. same_frame rho0 (fst x)) out"
        by (elim ode2es_oper_steps)
          (auto simp: list_all_iff same_frame_def coeff_oper_def split: if_splits)
      ultimately show ?thesis by (simp add: \<rho>)
    qed
    then show "msum (map (\<lambda>x. data (fst x)) out) = data ?\<rho>" and "out \<noteq> []"
      and "list_all (\<lambda>x. same_frame ?\<rho> (fst x)) out"
      by simp_all
  qed
  have coeffs: "msum (map (\<lambda>x. data (fst x)) es) = data ?\<rho>"
    by (simp add: es msum_estidy sum)
  have "same_frame ?\<rho> (es_value es 0)"
    unfolding es using estidy_nonempty [OF ne] same_frame_estidy [OF frame]
    by (rule same_frame_es_value)
  with coeffs show ?thesis
    by (simp add: data_es_value_zero same_frame_def)
qed

theorem reconstruction_at_zero_witness:
  "ode2es E0 sigmaz basis0 = Inr es_oper0 \<and>
   data (es_value es_oper0 0) = data basis0 \<and>
   data basis0 = [[1], [0]] \<and>
   ode2es E0 liouv_sigmaz basis0 = Inr (estidy es_super0) \<and>
   data (es_value (estidy es_super0) 0) = data (qmul basis0 (dag basis0)) \<and>
   data (qmul basis0 (dag basis0)) = [[1, 0], [0, 0]]"
proof -
  have init: "initial_state E0 sigmaz basis0 = basis0"
    "initial_state E0 liouv_sigmaz basis0 = qmul basis0 (dag basis0)"
    by (simp_all add: initial_state_def class_sigmaz class_liouv promote_def class_basis0)
  have vals: "data basis0 = [[1], [0]]" "data (qmul basis0 (dag basis0)) = [[1, 0], [0, 0]]"
    by code_simp+
  from reconstruction_at_zero [OF ode2es_oper0 exact_solver_E0 wf0(1)]
    reconstruction_at_zero [OF ode2es_super0 exact_solver_E0 wf0(2)]
  show ?thesis
    by (simp add: init vals ode2es_oper0 ode2es_super0)
qed

text \<open>
  C3.  \<open>ode2es\<close> raises the state-mismatch error whenever the generator is an operator,
  not a superoperator, and the initial state is not a ket; it raises the
  invalid-generator error whenever the generator is neither.  In both cases the
  exception leaves the function before \<open>out\<close> is set, so no series is returned.
\<close>

theorem rejection:
  "(\<not> issuper E L \<and> isoper E L \<and> \<not> isket E rho0 \<longrightarrow>
      ode2es E L rho0 = Inl StateTypeMismatchError \<and>
      ode2es_out E L rho0 = Inl StateTypeMismatchError) \<and>
   (\<not> issuper E L \<and> \<not> isoper E L \<longrightarrow>
      ode2es E L rho0 = Inl InvalidGeneratorError \<and>
      ode2es_out E L rho0 = Inl InvalidGeneratorError)"
  by (simp add: ode2es_def ode2es_out_def StateTypeMismatchError_def InvalidGeneratorError_def)

theorem rejection_witness:
  "ode2es E0 sigmaz rho_basis0 =
     Inl (TypeError ''Second argument must be a ket if firstis a Hamiltonian.'') \<and>
   ode2es E0 basis0 basis0 =
     Inl (TypeError ''First argument must be a Hamiltonian or Liouvillian.'')"
  using rejection [of E0 sigmaz rho_basis0] rejection [of E0 basis0 basis0]
  by (simp add: class_sigmaz class_basis0 class_rho StateTypeMismatchError_def
      InvalidGeneratorError_def)

text \<open>
  C4.  In \<open>essolve\<close> the generator passed to \<open>ode2es\<close> is \<open>H\<close> itself when the list of
  collapse operators is \<open>None\<close> or empty and the initial state is a ket; in every other
  case it is what \<open>liouvillian(H, c_op_list)\<close> returns.
\<close>

theorem generator_choice:
  "(no_collapse c_op_list \<and> isket E rho0 \<longrightarrow>
      essolve_L E H rho0 c_op_list = Inr H \<and>
      essolve E H rho0 tlist c_op_list e_ops =
        (case ode2es E H rho0 of
           Inl err \<Rightarrow> Inl err
         | Inr es \<Rightarrow> essolve_result E es tlist e_ops)) \<and>
   (\<not> (no_collapse c_op_list \<and> isket E rho0) \<longrightarrow>
      essolve_L E H rho0 c_op_list = liouvillian E H c_op_list \<and>
      essolve E H rho0 tlist c_op_list e_ops =
        (case liouvillian E H c_op_list of
           Inl err \<Rightarrow> Inl err
         | Inr L \<Rightarrow>
             (case ode2es E L rho0 of
                Inl err \<Rightarrow> Inl err
              | Inr es \<Rightarrow> essolve_result E es tlist e_ops)))"
  by (simp add: essolve_def essolve_L_def no_collapse_def)

theorem generator_choice_witness:
  "essolve_L E0 sigmaz basis0 (Some []) = Inr sigmaz \<and>
   essolve_L E0 sigmaz rho_basis0 None = Inr liouv_sigmaz \<and>
   essolve_L E0 sigmaz basis0 (Some [sigmaz]) = Inl LinearAlgebraFailure"
proof -
  have "liouvillian E0 sigmaz (Some [sigmaz]) = Inl LinearAlgebraFailure"
    by code_simp
  with generator_choice [of "Some []" E0 basis0 sigmaz "[]" "[]"]
    generator_choice [of None E0 rho_basis0 sigmaz "[]" "[]"]
    generator_choice [of "Some [sigmaz]" E0 basis0 sigmaz "[]" "[]"]
  show ?thesis
    by (simp add: no_collapse_simps class_basis0 class_rho liouvillian_sigmaz)
qed

text \<open>
  C9.  When the generator is a superoperator and the initial state is a ket, \<open>ode2es\<close>
  runs the superoperator branch on \<open>rho0 * rho0.dag()\<close>: the shape that gives \<open>rlen\<close>,
  the matrix that is vectorised and the dims and shape of every coefficient are those
  of this product, whose matrix is the ket's matrix times its conjugate transpose.
\<close>

theorem promotion:
  assumes "issuper E L" and "isket E rho0"
  shows "ode2es_out E L rho0 = ode2es_super E L (qmul rho0 (dag rho0)) \<and>
         initial_state E L rho0 = qmul rho0 (dag rho0) \<and>
         dims (qmul rho0 (dag rho0)) = (fst (dims rho0), fst (dims rho0)) \<and>
         shape (qmul rho0 (dag rho0)) = (fst (shape rho0), fst (shape rho0)) \<and>
         data (qmul rho0 (dag rho0)) = mat_mul (data rho0) (dagger (data rho0))"
  using assms
  by (simp add: ode2es_out_def promote_def initial_state_def qmul_def dag_def Qobj_def)

theorem promotion_witness:
  "ode2es_out E0 liouv_sigmaz basis0 = ode2es_super E0 liouv_sigmaz rho_basis0 \<and>
   qmul basis0 (dag basis0) = rho_basis0 \<and>
   ode2es_super E0 liouv_sigmaz rho_basis0 = Inr (Some es_super0)"
proof -
  have "qmul basis0 (dag basis0) = rho_basis0"
    by code_simp
  with promotion [OF class_liouv class_basis0(1)] run_super show ?thesis
    by simp
qed

text \<open>
  C10.  When \<open>ode2es\<close> returns, the series passed to \<open>estidy\<close> has exactly
  \<open>prod(shape)\<close> terms, \<open>shape\<close> being that of the initial state after the promotion
  of a ket in the superoperator branch; there are at least as many eigenvalues, and
  every coefficient carries the dims and the shape of that state.  The loop itself,
  run over \<open>range(n)\<close> with \<open>n > 0\<close> and a body that yields a term at every index,
  returns a series of exactly \<open>n\<close> terms, the \<open>i\<close>-th being the term of index \<open>i\<close>.
\<close>

theorem series_shape:
  "(ode2es E L rho0 = Inr es \<longrightarrow>
      (\<exists>out w kets. ode2es_out E L rho0 = Inr (Some out) \<and> es = estidy out \<and>
           eigenstates E L = Inr (w, kets) \<and>
           length out = prod_shape (shape (initial_state E L rho0)) \<and>
           length out \<le> length w \<and>
           list_all (\<lambda>(q, s). dims q = dims (initial_state E L rho0) \<and>
                              shape q = shape (initial_state E L rho0)) out)) \<and>
   (0 < n \<and> (\<forall>i<n. \<exists>q s. body i = Inr (eseries q s)) \<longrightarrow>
      (\<exists>out. es_loop body [0..<n] None = Inr (Some out) \<and> length out = n \<and>
           (\<forall>i<n. body i = Inr (eseries (fst (out ! i)) (snd (out ! i))))))"
proof (intro conjI impI)
  assume "0 < n \<and> (\<forall>i<n. \<exists>q s. body i = Inr (eseries q s))"
  then show "\<exists>out. es_loop body [0..<n] None = Inr (Some out) \<and> length out = n \<and>
           (\<forall>i<n. body i = Inr (eseries (fst (out ! i)) (snd (out ! i))))"
    using es_loop_range by blast
next
  assume run: "ode2es E L rho0 = Inr es"
  from run obtain out where
    out: "ode2es_out E L rho0 = Inr (Some out)" and es: "es = estidy out"
    by (auto simp: ode2es_def split: sum.splits option.splits)
  from ode2es_out_cases [OF out]
  show "\<exists>out w kets. ode2es_out E L rho0 = Inr (Some out) \<and> es = estidy out \<and>
           eigenstates E L = Inr (w, kets) \<and>
           length out = prod_shape (shape (initial_state E L rho0)) \<and>
           length out \<le> length w \<and>
           list_all (\<lambda>(q, s). dims q = dims (initial_state E L rho0) \<and>
                              shape q = shape (initial_state E L rho0)) out"
  proof (elim disjE conjE)
    assume sup: "issuper E L" and run: "ode2es_super E L (promote E rho0) = Inr (Some out)"
    from run show ?thesis
    proof (rule ode2es_super_steps)
      fix w kets vv
      let ?n = "prod_shape (shape (promote E rho0))"
      assume w: "eigenstates E L = Inr (w, kets)"
        and ok: "\<forall>i<?n. i < length w \<and> i < ncols vv \<and>
                   (\<exists>m. vec2mat (map (\<lambda>r. r ! i) vv) = Inr m)"
        and r: "Some out = (if ?n = 0 then None
              else Some (map (\<lambda>i. (coeff_super vv (promote E rho0) i, w ! i)) [0..<?n]))"
      from r have o: "out = map (\<lambda>i. (coeff_super vv (promote E rho0) i, w ! i)) [0..<?n]"
        and pos: "?n \<noteq> 0"
        by (auto split: if_splits)
      from ok pos have "?n \<le> length w"
        by (cases ?n) (auto simp: less_Suc_eq_le Suc_le_eq)
      with o out es w sup show ?thesis
        by (auto simp: initial_state_def list_all_iff coeff_super_def Qobj_def)
    qed
  next
    assume nsup: "\<not> issuper E L" and run: "ode2es_oper E L rho0 = Inr (Some out)"
    from run show ?thesis
    proof (rule ode2es_oper_steps)
      fix w kets vv
      let ?n = "prod_shape (shape rho0)"
      assume w: "eigenstates E L = Inr (w, kets)"
        and ok: "\<forall>i<?n. i < length w \<and> i < ncols vv"
        and r: "Some out = (if ?n = 0 then None
              else Some (map (\<lambda>i. (coeff_oper vv rho0 i, - \<i> * w ! i)) [0..<?n]))"
      from r have o: "out = map (\<lambda>i. (coeff_oper vv rho0 i, - \<i> * w ! i)) [0..<?n]"
        and pos: "?n \<noteq> 0"
        by (auto split: if_splits)
      from ok pos have "?n \<le> length w"
        by (cases ?n) (auto simp: less_Suc_eq_le Suc_le_eq)
      with o out es w nsup show ?thesis
        by (auto simp: initial_state_def list_all_iff coeff_oper_def Qobj_def)
    qed
  qed
qed

theorem series_shape_witness:
  "ode2es E0 sigmaz basis0 = Inr es_oper0 \<and>
   ode2es_out E0 sigmaz basis0 = Inr (Some es_oper0) \<and>
   length es_oper0 = prod_shape (shape basis0) \<and>
   list_all (\<lambda>(q, s). dims q = dims basis0 \<and> shape q = shape basis0) es_oper0 \<and>
   ode2es E0 liouv_sigmaz basis0 = Inr (estidy es_super0) \<and>
   ode2es_out E0 liouv_sigmaz basis0 = Inr (Some es_super0) \<and>
   length es_super0 = prod_shape (shape rho_basis0) \<and>
   list_all (\<lambda>(q, s). dims q = dims rho_basis0 \<and> shape q = shape rho_basis0) es_super0 \<and>
   es_loop (term_oper [[1, 0], [0, 0]] [1, - 1] basis0) [0..<2] None = Inr (Some es_oper0)"
proof -
  have body: "\<forall>i<2. \<exists>q s. term_oper [[1, 0], [0, 0]] [1, - 1] basis0 i = Inr (eseries q s)"
    using terms_oper0 by (auto simp: less_2_cases_iff)
  have init: "initial_state E0 sigmaz basis0 = basis0"
    "initial_state E0 liouv_sigmaz basis0 = rho_basis0"
    by (simp_all add: initial_state_def class_sigmaz class_liouv promote_basis0)
  have loop: "es_loop (term_oper [[1, 0], [0, 0]] [1, - 1] basis0) [0..<2] None =
      Inr (Some es_oper0)"
    by code_simp
  have vals: "prod_shape (shape basis0) = 2" "prod_shape (shape rho_basis0) = 4"
    "length es_oper0 = 2" "length es_super0 = 4"
    "list_all (\<lambda>(q, s). dims q = dims basis0 \<and> shape q = shape basis0) es_oper0"
    "list_all (\<lambda>(q, s). dims q = dims rho_basis0 \<and> shape q = shape rho_basis0) es_super0"
    by code_simp+
  from series_shape [of E0 sigmaz basis0 es_oper0 2 "term_oper [[1, 0], [0, 0]] [1, - 1] basis0"]
    series_shape [of E0 liouv_sigmaz basis0 "estidy es_super0" 2
      "term_oper [[1, 0], [0, 0]] [1, - 1] basis0"]
    body
  show ?thesis
    by (simp add: ode2es_oper0 ode2es_super0 run_oper run_super init loop vals)
qed



text \<open>
  C8.  With an empty list of observables, \<open>essolve\<close> returns whenever the generator
  could be built and \<open>ode2es\<close> returned a series: the result has the solver name
  \<open>essolve\<close>, the time list it was given, and an empty list of expectation sequences.
\<close>

theorem no_observables:
  assumes "essolve_L E H rho0 c_op_list = Inr L"
    and "ode2es E L rho0 = Inr es"
  shows "essolve E H rho0 tlist c_op_list [] =
           Inr \<lparr>solver = ''essolve'', times_od = tlist, expect_od = []\<rparr>"
  using assms by (simp add: essolve_def essolve_result_eq)

theorem no_observables_witness:
  "essolve E0 sigmaz basis0 [0, 1] None [] =
     Inr \<lparr>solver = ''essolve'', times_od = [0, 1], expect_od = []\<rparr>"
  by (rule no_observables [OF gen0 ode2es_oper0])

text \<open>
  C7.  The two-level scenario: generator \<open>diag(1, -1)\<close>, initial ket \<open>(1, 0)\<close>, times
  \<open>0, pi/2, pi\<close>, observable \<open>diag(1, -1)\<close>, no collapse operators.  Let the
  generator be classified as an operator and every object with the dims and shape of
  the initial ket as a ket, let the eigensolver return the eigenvalues \<open>1, -1\<close> with
  the standard basis vectors, and let the linear solver answer with an exact solution.
  Then \<open>ode2es\<close> builds, and returns, the two terms with rates \<open>-i * 1\<close> and
  \<open>-i * (-1)\<close> whose coefficients are the eigenprojectors \<open>diag(1, 0)\<close> and
  \<open>diag(0, 1)\<close> applied to the initial ket, and \<open>essolve\<close> returns the real sequence
  \<open>1, 1, 1\<close> for the observable, whose imaginary parts are zero.
\<close>

theorem two_level_scenario:
  assumes "\<not> issuper E sigmaz" and "isoper E sigmaz"
    and "\<forall>q. same_frame basis0 q \<longrightarrow> isket E q"
    and "eigenstates E sigmaz = Inr ([1, - 1], [k0, k1])"
    and "data k0 = [[1], [0]]" and "data k1 = [[0], [1]]"
    and "exact_solver E" and "la_solve E [[1, 0], [0, 1]] [[1], [0]] = Inr x"
    and "no_collapse c_op_list"
  shows "ode2es_out E sigmaz basis0 = Inr (Some [(basis0, - \<i> * 1), (zero_ket, - \<i> * (- 1))]) \<and>
         ode2es E sigmaz basis0 = Inr [(basis0, - \<i> * 1), (zero_ket, - \<i> * (- 1))] \<and>
         data basis0 = mat_mul [[1, 0], [0, 0]] (data basis0) \<and>
         data zero_ket = mat_mul [[0, 0], [0, 1]] (data basis0) \<and>
         essolve E sigmaz basis0 [0, pi / 2, pi] c_op_list [sigmaz] =
           Inr \<lparr>solver = ''essolve'', times_od = [0, pi / 2, pi],
                expect_od = [RealSeq [1, 1, 1]]\<rparr> \<and>
         seq_imag (RealSeq [1, 1, 1]) = [0, 0, 0]"
proof -
  from assms(3) have ket: "isket E basis0"
    using frame_basis0 by blast
  have out: "ode2es_out E sigmaz basis0 = Inr (Some es_oper0)"
    using assms(1,2) ket assms(4-8) by (rule two_level_series)
  then have es: "ode2es E sigmaz basis0 = Inr es_oper0"
    by (simp add: ode2es_def tidy_oper0)
  have L: "essolve_L E sigmaz basis0 c_op_list = Inr sigmaz"
    using assms(9) ket by (simp add: essolve_L_def no_collapse_def)
  have "expect E sigmaz (esval es_oper0 [0, pi / 2, pi]) = [1, 1, 1]"
    by (simp add: expect_def esval_def expect_oper0_at [OF assms(3)])
  then have "essolve E sigmaz basis0 [0, pi / 2, pi] c_op_list [sigmaz] =
           Inr \<lparr>solver = ''essolve'', times_od = [0, pi / 2, pi],
                expect_od = [RealSeq [1, 1, 1]]\<rparr>"
    by (simp add: essolve_def L es essolve_result_eq stored_seq_def data_sigmaz)
  with out es show ?thesis
    using projected0 by (simp add: es_oper0_def basis0_fields [unfolded full_def])
qed

theorem two_level_scenario_witness:
  "ode2es E0 sigmaz basis0 = Inr [(basis0, - \<i> * 1), (zero_ket, - \<i> * (- 1))] \<and>
   essolve E0 sigmaz basis0 [0, pi / 2, pi] (Some []) [sigmaz] =
     Inr \<lparr>solver = ''essolve'', times_od = [0, pi / 2, pi], expect_od = [RealSeq [1, 1, 1]]\<rparr>"
  using two_level_scenario [OF class_sigmaz isket_frame0 eig_sigmaz kets0 exact_solver_E0 solve0
      no_collapse_simps(2)]
  by simp

end
